theory Spec2Isabelle
  imports Main "HOL-Library.Multiset" "HOL-Library.Product_Lexorder" "HOL-Library.AList"
begin

unbundle bit_operations_syntax

section \<open>Python values shared by the models\<close>

text \<open>
  The exceptions the modelled functions of \<open>base/_interface.py\<close> raise. A function that
  can raise returns \<open>pyerror + 'a\<close>, with \<open>Inl\<close> for the exception.
\<close>

datatype pyerror =
    KeyError | NameError | AttributeError | TypeError | LookupError
  | ValueError | IndexError | ZeroDivisionError

section \<open>priorityhook\<close>

subsection \<open>heapq (Python 2.7 standard library)\<close>

text \<open>
  \<open>heapq._siftdown(heap, startpos, pos)\<close>: the new item at \<open>pos\<close> moves up while it is
  smaller than its parent at \<open>(pos - 1) >> 1\<close>. The loop is written as a recursion on
  \<open>pos\<close>, with \<open>newitem = heap[pos]\<close> read before the loop.
\<close>

function siftdown_loop :: "'a::linorder list \<Rightarrow> nat \<Rightarrow> nat \<Rightarrow> 'a \<Rightarrow> 'a list" where
  "siftdown_loop heap startpos pos newitem =
     (if pos > startpos then
        (let parentpos = (pos - 1) div 2; parent = heap ! parentpos in
         if newitem < parent then siftdown_loop (heap[pos := parent]) startpos parentpos newitem
         else heap[pos := newitem])
      else heap[pos := newitem])"
  by pat_completeness auto
termination
  by (relation "measure (\<lambda>(heap, startpos, pos, newitem). pos)") auto

definition siftdown :: "'a::linorder list \<Rightarrow> nat \<Rightarrow> nat \<Rightarrow> 'a list" where
  "siftdown heap startpos pos = siftdown_loop heap startpos pos (heap ! pos)"

text \<open>\<open>heapq.heappush(heap, item)\<close>: append, then sift the last position towards the root.\<close>

definition heappush :: "'a::linorder list \<Rightarrow> 'a \<Rightarrow> 'a list" where
  "heappush heap item = siftdown (heap @ [item]) 0 (length heap)"

text \<open>
  \<open>heapq.nsmallest(n, iterable)\<close> is documented as \<open>sorted(iterable)[:n]\<close>, and both of its
  shortcuts (\<open>min\<close> for \<open>n == 1\<close>, \<open>sorted\<close> for \<open>n >= len\<close>) compute that.
\<close>

definition nsmallest :: "nat \<Rightarrow> 'a::linorder list \<Rightarrow> 'a list" where
  "nsmallest n iterable = take n (sort iterable)"

subsection \<open>The dispatcher's state\<close>

text \<open>
  A callback is a Python callable. Its identity and its place in Python 2's default
  ordering of objects (by address) are a natural number; the queue holds
  \<open>(priority, callable)\<close> tuples, which Python compares lexicographically.

  \<open>hookable\<close> is the set of names for which \<open>hasattr(self.object, name)\<close> holds: the
  event methods of the \<open>idaapi.*_Hooks\<close> class. \<open>installed\<close> is the set of names whose
  attribute of \<open>self.object\<close> is a trampoline of this dispatcher, set there by
  \<open>setattr(self.object, name, self.apply(name))\<close>; for every other name the attribute is
  the method of the hook class. \<open>cache\<close> is \<open>self.__cache\<close>, \<open>disabled\<close> is
  \<open>self.__disabled\<close> and \<open>traceback\<close> holds the keys of \<open>self.__traceback\<close>.
\<close>

type_synonym callable = nat

record priorityhook =
  hookable :: "string set"
  installed :: "string set"
  cache :: "string \<rightharpoonup> (int \<times> callable) list"
  disabled :: "string set"
  traceback :: "(string \<times> callable) set"

text \<open>
  The log line of \<open>enable\<close> and \<open>disable\<close> formats
  \<open>'.'.join(('internal', __name__, cls.__name__))\<close>. Neither method binds a local
  \<open>cls\<close> (the other methods set \<open>cls = self.__class__\<close> first) and the module has no
  global of that name, so evaluating the argument raises \<open>NameError\<close> before
  \<open>logging.fatal\<close> or \<open>logging.warn\<close> is called and before \<open>return False\<close> is reached.
\<close>

definition unbound_cls :: "pyerror + string" where
  "unbound_cls = Inl NameError"

definition enable :: "priorityhook \<Rightarrow> string \<Rightarrow> pyerror + (bool \<times> priorityhook)" where
  "enable self name =
     (if name \<notin> disabled self then
        (case unbound_cls of Inl e \<Rightarrow> Inl e | Inr _ \<Rightarrow> Inr (False, self))
      else Inr (True, self\<lparr>disabled := disabled self - {name}\<rparr>))"

definition disable :: "priorityhook \<Rightarrow> string \<Rightarrow> pyerror + (bool \<times> priorityhook)" where
  "disable self name =
     (if name \<notin> dom (cache self) then
        (case unbound_cls of Inl e \<Rightarrow> Inl e | Inr _ \<Rightarrow> Inr (False, self))
      else if name \<in> disabled self then
        (case unbound_cls of Inl e \<Rightarrow> Inl e | Inr _ \<Rightarrow> Inr (False, self))
      else Inr (True, self\<lparr>disabled := insert name (disabled self)\<rparr>))"

text \<open>
  \<open>discard\<close>: the entries whose callable differs are kept in their order; an emptied
  queue is popped from the cache.
\<close>

definition discard ::
  "priorityhook \<Rightarrow> string \<Rightarrow> callable \<Rightarrow> pyerror + (bool \<times> priorityhook)" where
  "discard self name callable =
     (if name \<notin> hookable self then Inl AttributeError
      else case cache self name of
        None \<Rightarrow> Inr (False, self)
      | Some q \<Rightarrow>
          (let res = filter (\<lambda>(p, f). f \<noteq> callable) q;
               found = length (filter (\<lambda>(p, f). \<not> f \<noteq> callable) q)
           in Inr (found \<noteq> 0,
                   if res \<noteq> [] then self\<lparr>cache := (cache self)(name \<mapsto> res)\<rparr>
                   else self\<lparr>cache := (cache self)(name := None)\<rparr>)))"

text \<open>
  \<open>apply\<close> fails with \<open>AttributeError\<close> on a name the hook object lacks; otherwise it
  returns the trampoline, which \<open>hook_method\<close> below models.
\<close>

definition apply_hook :: "priorityhook \<Rightarrow> string \<Rightarrow> pyerror + unit" where
  "apply_hook self name = (if name \<notin> hookable self then Inl AttributeError else Inr ())"

text \<open>
  \<open>add\<close>. Only when the cache has no queue of that name does it make the trampoline
  and set it on the hook object. \<open>self.__cache\<close> is a \<open>defaultdict(list)\<close>, so
  \<open>self.__cache[name]\<close> is the empty list when \<open>discard\<close> has left no queue.
\<close>

definition add ::
  "priorityhook \<Rightarrow> string \<Rightarrow> callable \<Rightarrow> int \<Rightarrow> pyerror + (bool \<times> priorityhook)" where
  "add self name callable priority =
     (case (if name \<notin> dom (cache self) then
              (case apply_hook self name of
                 Inl e \<Rightarrow> Inl e
               | Inr res \<Rightarrow> Inr (self\<lparr>installed := insert name (installed self)\<rparr>))
            else Inr self) of
        Inl e \<Rightarrow> Inl e
      | Inr s0 \<Rightarrow>
          (case discard s0 name callable of
             Inl e \<Rightarrow> Inl e
           | Inr (_, s1) \<Rightarrow>
               (let res = (case cache s1 name of None \<Rightarrow> [] | Some q \<Rightarrow> q)
                in Inr (True,
                        s1\<lparr>cache := (cache s1)(name \<mapsto> heappush res (priority, callable)),
                           traceback := insert (name, callable) (traceback s1)\<rparr>))))"

text \<open>\<open>get\<close> reads \<open>self.__cache[name]\<close>, which stores an empty queue for a new name.\<close>

definition get :: "priorityhook \<Rightarrow> string \<Rightarrow> callable list \<times> priorityhook" where
  "get self name =
     (let res = (case cache self name of None \<Rightarrow> [] | Some q \<Rightarrow> q)
      in (map snd res, self\<lparr>cache := (cache self)(name \<mapsto> res)\<rparr>))"

subsection \<open>The trampoline\<close>

text \<open>
  What a callback does when called: it raises, or it returns \<open>priorityhook.CONTINUE\<close>,
  \<open>priorityhook.STOP\<close>, another instance of \<open>priorityhook.result\<close>, or a value that is
  no instance of \<open>result\<close> (\<open>None\<close>, for a callback that just returns).
\<close>

datatype retval = CONTINUE | STOP | OtherResult | NonResult

datatype outcome = Returns retval | Raises

datatype logline = Fatal callable | Warn callable

text \<open>
  The \<open>for\<close> loop of \<open>method\<close> over the sorted queue. The result lists the callables
  invoked, the log lines written, and the exception leaving the loop, if any. The
  \<open>except\<close> block reads \<open>self.__traceback[name, func]\<close>, a \<open>KeyError\<close> when the key is
  missing.
\<close>

fun run_hooks ::
  "priorityhook \<Rightarrow> string \<Rightarrow> (callable \<Rightarrow> outcome) \<Rightarrow> (int \<times> callable) list
     \<Rightarrow> callable list \<times> logline list \<times> pyerror option" where
  "run_hooks self name call [] = ([], [], None)"
| "run_hooks self name call ((p, func) # rest) =
     (case (case call func of
              Returns r \<Rightarrow> Inr (r, [])
            | Raises \<Rightarrow>
                if (name, func) \<in> traceback self then Inr (STOP, [Fatal func, Warn func])
                else Inl ([Fatal func], KeyError)) of
        Inl (lg, e) \<Rightarrow> ([func], lg, Some e)
      | Inr (res, lg) \<Rightarrow>
          if res = NonResult \<or> res = CONTINUE then
            (case run_hooks self name call rest of
               (calls, lg', err) \<Rightarrow> (func # calls, lg @ lg', err))
          else if res = STOP then ([func], lg, None)
          else ([func], lg, Some TypeError))"

text \<open>
  The trampoline \<open>method\<close> that \<open>apply\<close> installs. \<open>Inr ()\<close> stands for the value of
  the superclass method, called after the loop.
\<close>

definition hook_method ::
  "priorityhook \<Rightarrow> string \<Rightarrow> (callable \<Rightarrow> outcome)
     \<Rightarrow> callable list \<times> logline list \<times> (pyerror + unit)" where
  "hook_method self name call =
     (if name \<in> dom (cache self) \<and> name \<notin> disabled self then
        (let hookq = the (cache self name) in
         case run_hooks self name call (nsmallest (length hookq) hookq) of
           (calls, lg, None) \<Rightarrow> (calls, lg, Inr ())
         | (calls, lg, Some e) \<Rightarrow> (calls, lg, Inl e))
      else ([], [], Inr ()))"

text \<open>
  An event of the host: the host calls the method of the hook object that has the
  event's name. That is the trampoline where \<open>add\<close> has set it, and the method of the
  hook class elsewhere, which calls no callback.
\<close>

definition dispatch ::
  "priorityhook \<Rightarrow> string \<Rightarrow> (callable \<Rightarrow> outcome)
     \<Rightarrow> callable list \<times> logline list \<times> (pyerror + unit)" where
  "dispatch self name call =
     (if name \<in> installed self then hook_method self name call else ([], [], Inr ()))"

text \<open>
  A dispatcher as \<open>__init__\<close> leaves it, on a hook class with the given event methods:
  \<open>cycle\<close> finds the cache empty and makes no trampoline.
\<close>

definition init :: "string set \<Rightarrow> priorityhook" where
  "init names =
     \<lparr>hookable = names, installed = {}, cache = Map.empty, disabled = {}, traceback = {}\<rparr>"

text \<open>
  Every callable of a queue has its entry in \<open>self.__traceback\<close>: \<open>add\<close> stores both,
  and nothing removes an entry.
\<close>

definition traceback_kept :: "priorityhook \<Rightarrow> bool" where
  "traceback_kept self =
     (\<forall>name q. cache self name = Some q \<longrightarrow> (\<forall>(p, f) \<in> set q. (name, f) \<in> traceback self))"

definition continues :: "outcome \<Rightarrow> bool" where
  "continues out = (out = Returns CONTINUE \<or> out = Returns NonResult)"

text \<open>
  A dispatcher with two callbacks on one event, as \<open>add('ev', 1, 10)\<close> and
  \<open>add('ev', 2, 20)\<close> leave a fresh one.
\<close>

definition two_hooks :: priorityhook where
  "two_hooks =
     \<lparr>hookable = {''ev''}, installed = {''ev''}, cache = [''ev'' \<mapsto> [(10, 1), (20, 2)]],
      disabled = {}, traceback = {(''ev'', 1), (''ev'', 2)}\<rparr>"

text \<open>A fresh dispatcher after \<open>add('ev', 1, 30)\<close>, \<open>add('ev', 2, 10)\<close> and \<open>add('ev', 3, 20)\<close>.\<close>

definition three_hooks :: priorityhook where
  "three_hooks =
     \<lparr>hookable = {''ev''}, installed = {''ev''},
      cache = [''ev'' \<mapsto> [(10, 2), (30, 1), (20, 3)]],
      disabled = {}, traceback = {(''ev'', 3), (''ev'', 2), (''ev'', 1)}\<rparr>"

section \<open>typemap\<close>

subsection \<open>The host's constants\<close>

text \<open>
  \<open>idaapi\<close> is the host's module and no part of this repository. The flag values are
  those of the host's header \<open>bytes.hpp\<close>: the data type of an item is the top nibble
  of its flags (which \<open>FF_MASKSIZE\<close> selects), the representation of its two operands
  the two nibbles below (\<open>FF_MASK\<close> selects all three), \<open>FF_DATA\<close> marks a data item
  and \<open>FF_SIGN\<close> an inverted sign. Each \<open>idaapi.*flag()\<close> function returns
  \<open>FF_DATA\<close> with its type.
\<close>

definition FF_MASKSIZE :: int where "FF_MASKSIZE = 0xf0000000"
definition FF_MASK :: int where "FF_MASK = 0xfff00000"

definition FF_DATA :: int where "FF_DATA = 0x00000400"
definition FF_SIGN :: int where "FF_SIGN = 0x00020000"
definition FF_0OFF :: int where "FF_0OFF = 0x00500000"
definition FF_1OFF :: int where "FF_1OFF = 0x05000000"
definition FF_BYTE :: int where "FF_BYTE = 0x00000000"
definition FF_WORD :: int where "FF_WORD = 0x10000000"
definition FF_DWRD :: int where "FF_DWRD = 0x20000000"
definition FF_QWRD :: int where "FF_QWRD = 0x30000000"
definition FF_TBYT :: int where "FF_TBYT = 0x40000000"
definition FF_ASCI :: int where "FF_ASCI = 0x50000000"
definition FF_STRU :: int where "FF_STRU = 0x60000000"
definition FF_OWRD :: int where "FF_OWRD = 0x70000000"
definition FF_FLOAT :: int where "FF_FLOAT = 0x80000000"
definition FF_DOUBLE :: int where "FF_DOUBLE = 0x90000000"
definition FF_PACKREAL :: int where "FF_PACKREAL = 0xA0000000"
definition FF_ALIGN :: int where "FF_ALIGN = 0xB0000000"
definition FF_3BYTE :: int where "FF_3BYTE = 0xC0000000"
definition FF_YWRD :: int where "FF_YWRD = 0xE0000000"

definition byteflag :: int where "byteflag = FF_DATA OR FF_BYTE"
definition wordflag :: int where "wordflag = FF_DATA OR FF_WORD"
definition tribyteflag :: int where "tribyteflag = FF_DATA OR FF_3BYTE"
definition dwrdflag :: int where "dwrdflag = FF_DATA OR FF_DWRD"
definition qwrdflag :: int where "qwrdflag = FF_DATA OR FF_QWRD"
definition tbytflag :: int where "tbytflag = FF_DATA OR FF_TBYT"
definition owrdflag :: int where "owrdflag = FF_DATA OR FF_OWRD"
definition ywrdflag :: int where "ywrdflag = FF_DATA OR FF_YWRD"
definition floatflag :: int where "floatflag = FF_DATA OR FF_FLOAT"
definition doubleflag :: int where "doubleflag = FF_DATA OR FF_DOUBLE"
definition packrealflag :: int where "packrealflag = FF_DATA OR FF_PACKREAL"
definition asciflag :: int where "asciflag = FF_DATA OR FF_ASCI"
definition alignflag :: int where "alignflag = FF_DATA OR FF_ALIGN"
definition struflag :: int where "struflag = FF_DATA OR FF_STRU"
definition offflag :: int where "offflag = FF_0OFF OR FF_1OFF"

definition ASCSTR_TERMCHR :: int where "ASCSTR_TERMCHR = 0"
definition ASCSTR_UNICODE :: int where "ASCSTR_UNICODE = 3"

text \<open>
  A structure of the sibling module \<open>structure\<close>, of which \<open>typemap\<close> reads the
  identifier and the size.
\<close>

record structure_t =
  struc_id :: int
  struc_size :: int

text \<open>
  What the model takes from outside as given: whether \<open>idaapi.__version__ >= 7.0\<close>,
  whether \<open>idaapi\<close> has \<open>ywrdflag\<close>, the value of \<open>idaapi.BADADDR\<close>,
  \<open>idaapi.get_data_elsize(BADADDR, flag, opinfo)\<close> as a function of the flag and of
  \<open>opinfo.tid\<close> (\<open>None\<close> for a fresh \<open>opinfo_t()\<close>), \<open>structure.by_identifier\<close>,
  and the order in which Python 2 iterates \<open>decimalmap.items()\<close> (the order of a
  dictionary is that of its hash table, not of the literal).
\<close>

record host =
  version7 :: bool
  has_ywrdflag :: bool
  BADADDR :: int
  get_data_elsize :: "int \<Rightarrow> int option \<Rightarrow> int"
  by_identifier :: "int \<Rightarrow> pyerror + structure_t"
  decimalmap_order :: "int list"

subsection \<open>Pythonic types\<close>

text \<open>
  The Python types that \<open>typemap.typemap\<close> has as keys, \<open>KNone\<close> for \<open>None\<close>. A
  pythonic type is a bare type \<open>t\<close>, a tuple \<open>(t, size)\<close>, a list \<open>[type, count]\<close> or a
  structure.
\<close>

datatype kind = Kint | Klong | Kfloat | Kstr | Kunicode | Kchr | Ktype | KNone

datatype pytype =
    Bare kind
  | Scalar kind int
  | Array pytype int
  | Struct structure_t

text \<open>
  A key of one of the tables: a size, or a Python type, \<open>Type KNone\<close> being the key
  \<open>None\<close>. A dictionary is an association list in its iteration order.
\<close>

datatype tkey = Size int | Type kind

type_synonym table = "(tkey \<times> int \<times> int) list"

definition dict_get :: "('k \<times> 'v) list \<Rightarrow> 'k \<Rightarrow> pyerror + 'v" where
  "dict_get d k = (case map_of d k of None \<Rightarrow> Inl KeyError | Some v \<Rightarrow> Inr v)"

record typemap =
  integermap :: table
  decimalmap :: table
  stringmap :: table
  ptrmap :: table
  nonemap :: table
  inverted :: "int \<rightharpoonup> kind \<times> tkey"

subsection \<open>The class body\<close>

definition integermap_init :: "host \<Rightarrow> table" where
  "integermap_init h =
     (let m = [(Size 1, (byteflag, -1)), (Size 2, (wordflag, -1)), (Size 3, (tribyteflag, -1)),
               (Size 4, (dwrdflag, -1)), (Size 8, (qwrdflag, -1)), (Size 10, (tbytflag, -1)),
               (Size 16, (owrdflag, -1))];
          m = (if version7 h then filter (\<lambda>(k, v). k \<noteq> Size 3) m else m);
          m = (if has_ywrdflag h then AList.update (Size 32) (ywrdflag, -1) m else m)
      in m)"

definition decimalmap_init :: table where
  "decimalmap_init =
     [(Size 4, (floatflag, -1)), (Size 8, (doubleflag, -1)),
      (Size 10, (packrealflag, -1)), (Size 12, (packrealflag, -1))]"

definition stringmap_init :: table where
  "stringmap_init =
     [(Type Kchr, (asciflag, 0)), (Type Kstr, (asciflag, ASCSTR_TERMCHR)),
      (Type Kunicode, (asciflag, ASCSTR_UNICODE))]"

definition ptrmap_init :: "host \<Rightarrow> table" where
  "ptrmap_init h = map (\<lambda>(sz, (flg, tid)). (sz, (offflag OR flg, tid))) (integermap_init h)"

definition nonemap_init :: table where
  "nonemap_init = [(Type KNone, (alignflag, -1))]"

text \<open>
  One loop of the inverted table: \<open>for s, (f, _) in items: inverted[f & msk] = (t, s)\<close>.
\<close>

definition invert_into ::
  "int \<Rightarrow> kind \<Rightarrow> table \<Rightarrow> (int \<rightharpoonup> kind \<times> tkey) \<Rightarrow> (int \<rightharpoonup> kind \<times> tkey)" where
  "invert_into msk t items tbl =
     fold (\<lambda>(s, (f, _)) tbl. tbl(f AND msk \<mapsto> (t, s))) items tbl"

text \<open>\<open>decimalmap.items()\<close>, in the order the host's Python iterates the dictionary.\<close>

definition decimalmap_items :: "host \<Rightarrow> table" where
  "decimalmap_items h =
     map (\<lambda>s. (Size s, the (map_of decimalmap_init (Size s)))) (decimalmap_order h)"

definition inverted_init :: "host \<Rightarrow> (int \<rightharpoonup> kind \<times> tkey)" where
  "inverted_init h =
     (let tbl = invert_into FF_MASKSIZE Kint (integermap_init h) Map.empty;
          tbl = invert_into FF_MASKSIZE Kfloat (decimalmap_items h) tbl;
          tbl = invert_into FF_MASKSIZE Kstr stringmap_init tbl;
          tbl = invert_into FF_MASK Ktype (ptrmap_init h) tbl
      in tbl(FF_STRU \<mapsto> (Kint, Size 1)))"

definition typemap_class :: "host \<Rightarrow> typemap" where
  "typemap_class h =
     \<lparr>integermap = integermap_init h, decimalmap = decimalmap_init, stringmap = stringmap_init,
      ptrmap = ptrmap_init h, nonemap = nonemap_init, inverted = inverted_init h\<rparr>"

text \<open>
  \<open>__newprc__\<close>, with \<open>bits\<close> the 64, 32 or \<open>None\<close> it reads from the database: the
  default entries, under the key \<open>None\<close>. A missing \<open>bits/8\<close> is a \<open>KeyError\<close>.
\<close>

definition newprc :: "typemap \<Rightarrow> int option \<Rightarrow> pyerror + typemap" where
  "newprc tm bits =
     (case bits of
        None \<Rightarrow> Inr tm
      | Some b \<Rightarrow>
          (case dict_get (integermap tm) (Size (b div 8)) of
             Inl e \<Rightarrow> Inl e
           | Inr i \<Rightarrow>
          (case dict_get (decimalmap tm) (Size (b div 8)) of
             Inl e \<Rightarrow> Inl e
           | Inr d \<Rightarrow>
          (case dict_get (ptrmap tm) (Size (b div 8)) of
             Inl e \<Rightarrow> Inl e
           | Inr p \<Rightarrow>
          (case dict_get (stringmap tm) (Type Kstr) of
             Inl e \<Rightarrow> Inl e
           | Inr s \<Rightarrow>
               Inr (tm\<lparr>integermap := AList.update (Type KNone) i (integermap tm),
                       decimalmap := AList.update (Type KNone) d (decimalmap tm),
                       ptrmap := AList.update (Type KNone) p (ptrmap tm),
                       stringmap := AList.update (Type KNone) s (stringmap tm)\<rparr>))))))"

subsection \<open>dissolve and resolve\<close>

text \<open>\<open>typemap.typemap[t]\<close>: the table of a Python type.\<close>

fun table_of :: "typemap \<Rightarrow> kind \<Rightarrow> table" where
  "table_of tm Kint = integermap tm"
| "table_of tm Klong = integermap tm"
| "table_of tm Kfloat = decimalmap tm"
| "table_of tm Kstr = stringmap tm"
| "table_of tm Kunicode = stringmap tm"
| "table_of tm Kchr = stringmap tm"
| "table_of tm Ktype = ptrmap tm"
| "table_of tm KNone = nonemap tm"

text \<open>
  \<open>dissolve\<close>. The type identifier is an integer here, so \<open>isinstance(typeid,
  six.integer_types)\<close> holds. A flag whose type is not in the inverted table is logged
  and then looked up all the same, which raises \<open>KeyError\<close>. Python's \<open>//\<close> rounds down,
  as \<open>div\<close> does, and raises on a zero divisor.
\<close>

definition floordiv :: "int \<Rightarrow> int \<Rightarrow> pyerror + int" where
  "floordiv a b = (if b = 0 then Inl ZeroDivisionError else Inr (a div b))"

definition dissolve :: "host \<Rightarrow> typemap \<Rightarrow> int \<Rightarrow> int \<Rightarrow> int \<Rightarrow> pyerror + pytype" where
  "dissolve h tm flag typeid size' =
     (let dt = flag AND FF_MASKSIZE;
          sf = (if flag AND FF_SIGN = FF_SIGN then -1 else 1)
      in if dt = FF_STRU then
           (case by_identifier h typeid of
              Inl e \<Rightarrow> Inl e
            | Inr t \<Rightarrow>
                (let sz = struc_size t
                 in if sz = size' then Inr (Struct t)
                    else (case floordiv size' sz of
                            Inl e \<Rightarrow> Inl e
                          | Inr n \<Rightarrow> Inr (Array (Struct t) n))))
         else
           (case inverted tm dt of
              None \<Rightarrow> Inl KeyError
            | Some (t, Type k) \<Rightarrow>
                (case floordiv size' (get_data_elsize h dt None) of
                   Inl e \<Rightarrow> Inl e
                 | Inr count' \<Rightarrow> Inr (if count' > 1 then Array (Bare t) count' else Bare t))
            | Some (t, Size sz) \<Rightarrow>
                if sz = size' then Inr (Scalar t (sz * sf))
                else (case floordiv size' sz of
                        Inl e \<Rightarrow> Inl e
                      | Inr n \<Rightarrow> Inr (Array (Scalar t (sz * sf)) n))))"

text \<open>The last two lines of \<open>resolve\<close>, which every branch but that of a bare type reaches.\<close>

definition resolve_finish :: "host \<Rightarrow> int \<Rightarrow> int \<Rightarrow> int \<Rightarrow> int \<Rightarrow> int \<times> int \<times> int" where
  "resolve_finish h flag typeid sz count' =
     (let typeid = (if typeid < 0 then BADADDR h else typeid)
      in (flag OR (if sz < 0 then FF_SIGN else 0), typeid, \<bar>sz\<bar> * count'))"

fun resolve :: "host \<Rightarrow> typemap \<Rightarrow> pytype \<Rightarrow> pyerror + (int \<times> int \<times> int)" where
  "resolve h tm (Scalar t sz) =
     (case dict_get (table_of tm t)
             (if t \<in> {Kint, Klong, Kfloat, Ktype} then Size \<bar>sz\<bar> else Type t) of
        Inl e \<Rightarrow> Inl e
      | Inr (flag, typeid) \<Rightarrow> Inr (resolve_finish h flag typeid sz 1))"
| "resolve h tm (Array res count') =
     (case resolve h tm res of
        Inl e \<Rightarrow> Inl e
      | Inr (flag, typeid, sz) \<Rightarrow> Inr (resolve_finish h flag typeid sz count'))"
| "resolve h tm (Struct st) = Inr (resolve_finish h struflag (struc_id st) (struc_size st) 1)"
| "resolve h tm (Bare t) =
     (case dict_get (table_of tm t) (Type KNone) of
        Inl e \<Rightarrow> Inl e
      | Inr (flag, typeid) \<Rightarrow>
          (let typeid = (if typeid < 0 then BADADDR h else typeid)
           in Inr (flag, typeid, get_data_elsize h flag (Some typeid))))"

text \<open>\<open>dissolve(*resolve(t))\<close>.\<close>

definition roundtrip :: "host \<Rightarrow> typemap \<Rightarrow> pytype \<Rightarrow> pyerror + pytype" where
  "roundtrip h tm t =
     (case resolve h tm t of
        Inl e \<Rightarrow> Inl e
      | Inr (flag, typeid, size') \<Rightarrow> dissolve h tm flag typeid size')"

text \<open>
  A host for the closed examples: version 7 on a 64-bit database, one byte per element
  of any type, no structure, the literal's order.
\<close>

definition host7 :: host where
  "host7 = \<lparr>version7 = True, has_ywrdflag = True, BADADDR = 0xffffffffffffffff,
            get_data_elsize = (\<lambda>flag tid. 1), by_identifier = (\<lambda>i. Inl LookupError),
            decimalmap_order = [4, 8, 10, 12]\<rparr>"

text \<open>The same host with one structure, of identifier 7 and 4 bytes.\<close>

definition host_struc :: host where
  "host_struc =
     host7\<lparr>by_identifier :=
             (\<lambda>i. if i = 7 then Inr \<lparr>struc_id = 7, struc_size = 4\<rparr> else Inl LookupError)\<rparr>"

section \<open>ref_t\<close>

text \<open>
  A \<open>ref_t\<close> is a Python set of characters with the reference type \<open>F\<close> it was made
  from. The reference types of the host are those the module lists in its comment
  \<open>Ref_Types\<close>: 1 a data offset, 2 a write, 3 a read, 5 informational, 16 to 19 the
  calls and jumps, 21 the ordinary flow.
\<close>

record ref_t =
  F :: int
  chars :: "char set"

definition dr_O :: int where "dr_O = 1"
definition dr_W :: int where "dr_W = 2"
definition dr_R :: int where "dr_R = 3"
definition dr_I :: int where "dr_I = 5"
definition fl_CF :: int where "fl_CF = 16"
definition fl_CN :: int where "fl_CN = 17"
definition fl_JF :: int where "fl_JF = 18"
definition fl_JN :: int where "fl_JN = 19"
definition fl_F :: int where "fl_F = 21"

text \<open>
  \<open>ref_t.__mapper__\<close>, for a host older than version 7.0 or not, with the entry 31
  stored last.
\<close>

definition mapper :: "bool \<Rightarrow> (int \<times> string) list" where
  "mapper v7 =
     AList.update 31 ''*''
       (if \<not> v7 then [(1, ''&r''), (2, ''w''), (3, ''r'')]
        else [(fl_CF, ''rx''), (fl_CN, ''rx''), (fl_JF, ''rx''), (fl_JN, ''rx''), (fl_F, ''rx''),
              (dr_O, ''&r''), (dr_I, ''&r''), (dr_R, ''r''), (dr_W, ''w'')])"

text \<open>\<open>ref_t.of\<close>: \<open>cls.__mapper__.get(xrtype, '')\<close>.\<close>

definition ref_of :: "bool \<Rightarrow> int \<Rightarrow> ref_t" where
  "ref_of v7 xrtype =
     \<lparr>F = xrtype, chars = set (case map_of (mapper v7) xrtype of None \<Rightarrow> '''' | Some res \<Rightarrow> res)\<rparr>"

text \<open>
  \<open>ref_t.of_state\<close>. Its argument is a string or a \<open>ref_t\<close>; a \<open>ref_t\<close> never equals the
  string \<open>'*'\<close>. The loop runs over \<open>six.iteritems(cls.__mapper__)\<close>, in the order Python
  iterates the dictionary, which the model takes as given.
\<close>

datatype pystate = StateStr string | StateRef ref_t

fun of_state_loop :: "(int \<times> string) list \<Rightarrow> char set \<Rightarrow> pyerror + ref_t" where
  "of_state_loop [] res = Inl LookupError"
| "of_state_loop ((F', t) # rest) res =
     (if set t = res then Inr \<lparr>F = F', chars = res\<rparr> else of_state_loop rest res)"

text \<open>\<open>set(state)\<close>.\<close>

definition state_set :: "pystate \<Rightarrow> char set" where
  "state_set state = (case state of StateStr s \<Rightarrow> set s | StateRef r \<Rightarrow> chars r)"

definition of_state :: "(int \<times> string) list \<Rightarrow> pystate \<Rightarrow> pyerror + ref_t" where
  "of_state iteritems state =
     (if state = StateStr ''*'' then Inr \<lparr>F = 31, chars = set ''*''\<rparr>
      else of_state_loop iteritems (state_set state))"

section \<open>register_t and architecture_t\<close>

text \<open>
  Registers are objects: \<open>architecture_t.new\<close> and \<open>architecture_t.child\<close> create one
  instance each, and \<open>__parent__\<close> refers to another instance. The objects of an
  architecture are a list in their order of creation, and a register is referred to by
  its place in it, which is its identity (\<open>is\<close>).
\<close>

record register_t =
  name' :: string
  parent :: "nat option"
  children :: "(int \<times> nat) list"
  dtype :: int
  position :: int
  size' :: int
  realname :: "string option"

record architecture_t =
  objects :: "register_t list"
  register :: "(string \<times> nat) list"
  cache' :: "((string \<times> int) \<times> string) list"

text \<open>
  \<open>new\<close> and \<open>child\<close>, with the register's dtype as it results from the keyword or
  from \<open>idaapi.get_dtyp_by_size\<close>. Both return the new register. The alias set and the
  reference to the architecture, which \<open>promote\<close> and \<open>__eq__\<close> do not read, are left out
  of the record.
\<close>

definition new ::
  "architecture_t \<Rightarrow> string \<Rightarrow> int \<Rightarrow> string option \<Rightarrow> int \<Rightarrow> nat \<times> architecture_t" where
  "new self nm bits idaname dt =
     (let res = length (objects self);
          reg = \<lparr>name' = nm, parent = None, children = [], dtype = dt, position = 0,
                 size' = bits, realname = idaname\<rparr>
      in (res, \<lparr>objects = objects self @ [reg],
                register = AList.update nm res (register self),
                cache' = AList.update (case idaname of None \<Rightarrow> nm | Some n \<Rightarrow> n, dt) nm
                           (cache' self)\<rparr>))"

definition child ::
  "architecture_t \<Rightarrow> nat \<Rightarrow> string \<Rightarrow> int \<Rightarrow> int \<Rightarrow> string option \<Rightarrow> int
     \<Rightarrow> nat \<times> architecture_t" where
  "child self par nm pos bits idaname dt =
     (let res = length (objects self);
          reg = \<lparr>name' = nm, parent = Some par, children = [], dtype = dt, position = pos,
                 size' = bits, realname = idaname\<rparr>;
          objs = objects self @ [reg];
          p = objs ! par
      in (res, \<lparr>objects = objs[par := p\<lparr>children := AList.update pos res (children p)\<rparr>],
                register = AList.update nm res (register self),
                cache' = AList.update (case idaname of None \<Rightarrow> nm | Some n \<Rightarrow> n, dt) nm
                           (cache' self)\<rparr>))"

text \<open>
  \<open>promote\<close>. The helper \<open>parent\<close> of the source boxes \<open>register.__parent__\<close>, filters
  \<open>None\<close> out and takes the first element: it is the parent, or \<open>StopIteration\<close>, which
  the \<open>except\<close> clause turns into the \<open>LookupError\<close> at the end. A \<open>LookupError\<close> of the
  recursive call passes through. The recursion follows the parent links and is a
  partial function: \<open>None\<close> is a call that does not return.
\<close>

partial_function (option) promote ::
  "register_t list \<Rightarrow> nat \<Rightarrow> int option \<Rightarrow> (pyerror + nat) option" where
  "promote regs reg sz =
     (case sz of
        None \<Rightarrow>
          (case parent (regs ! reg) of
             None \<Rightarrow> Some (Inl LookupError)
           | Some p \<Rightarrow> Some (Inr p))
      | Some s \<Rightarrow>
          if size' (regs ! reg) = s then Some (Inr reg)
          else (case parent (regs ! reg) of
                  None \<Rightarrow> Some (Inl LookupError)
                | Some p \<Rightarrow> promote regs p (Some s)))"

text \<open>
  The registers above a register, nearest first. With every parent created before its
  children, as \<open>child\<close> creates them, these are all of them.
\<close>

function ancestors :: "register_t list \<Rightarrow> nat \<Rightarrow> nat list" where
  "ancestors regs reg =
     (case parent (regs ! reg) of
        None \<Rightarrow> []
      | Some p \<Rightarrow> if p < reg then p # ancestors regs p else [])"
  by pat_completeness auto
termination
  by (relation "measure snd") auto

definition parents_first :: "register_t list \<Rightarrow> bool" where
  "parents_first regs =
     (\<forall>r < length regs. case parent (regs ! r) of None \<Rightarrow> True | Some p \<Rightarrow> p < r)"

text \<open>
  \<open>register_t.__eq__\<close>. The other operand is a string, a register, an object of
  another class that has \<open>__eq__\<close> (with what that method returns for this register), or
  an object without \<open>__eq__\<close>, which is not this register. \<open>str.lower\<close> maps the
  letters \<open>A\<close> to \<open>Z\<close> to \<open>a\<close> to \<open>z\<close>.
\<close>

datatype pyobj = PyStr string | PyReg nat | PyObj bool | PyPlain

definition is_upper :: "char \<Rightarrow> bool" where
  "is_upper c = (65 \<le> (of_char c :: nat) \<and> (of_char c :: nat) \<le> 90)"

definition lower_char :: "char \<Rightarrow> char" where
  "lower_char c = (if is_upper c then char_of ((of_char c :: nat) + 32) else c)"

definition lower :: "string \<Rightarrow> string" where
  "lower s = map lower_char s"

definition register_eq :: "register_t list \<Rightarrow> nat \<Rightarrow> pyobj \<Rightarrow> bool" where
  "register_eq regs self other =
     (case other of
        PyStr s \<Rightarrow> lower (name' (regs ! self)) = lower s
      | PyReg r \<Rightarrow> self = r
      | PyObj b \<Rightarrow> b
      | PyPlain \<Rightarrow> False)"

text \<open>
  Equality of two strings ignoring letter case, stated on its own and without
  \<open>str.lower\<close>: the strings have the same length and at each place the same character,
  or the upper-case and the lower-case form of one of the 26 letters.
\<close>

definition letters :: "(char \<times> char) list" where
  "letters = zip ''ABCDEFGHIJKLMNOPQRSTUVWXYZ'' ''abcdefghijklmnopqrstuvwxyz''"

definition same_letter :: "char \<Rightarrow> char \<Rightarrow> bool" where
  "same_letter a b = (a = b \<or> (a, b) \<in> set letters \<or> (b, a) \<in> set letters)"

definition equal_ignoring_case :: "string \<Rightarrow> string \<Rightarrow> bool" where
  "equal_ignoring_case s t = list_all2 same_letter s t"

text \<open>A 64-bit register, its lower half, and a second register with the first one's fields.\<close>

definition example_regs :: "register_t list" where
  "example_regs =
     [\<lparr>name' = ''rax'', parent = None, children = [(0, 1)], dtype = 7, position = 0, size' = 64,
       realname = None\<rparr>,
      \<lparr>name' = ''eax'', parent = Some 0, children = [], dtype = 2, position = 0, size' = 32,
       realname = None\<rparr>,
      \<lparr>name' = ''rax'', parent = None, children = [(0, 1)], dtype = 7, position = 0, size' = 64,
       realname = None\<rparr>]"

section \<open>switch_t\<close>

text \<open>
  The fields of \<open>idaapi.switch_info_ex_t\<close> that \<open>switch_t\<close> reads, \<open>is_indirect()\<close> and
  \<open>is_subtract()\<close> among them.
\<close>

record switch_info_ex =
  startea :: int
  jumps :: int
  lowcase :: int
  defjump :: int
  ncases :: int
  jcases :: int
  regnum :: int
  regdtyp :: int
  ind_lowcase :: int
  is_indirect :: bool
  is_subtract :: bool

text \<open>
  \<open>database.get.array(ea, length=count)\<close> belongs to the sibling module \<open>database\<close>;
  the model takes it as the parameter \<open>array\<close>. Indexing its result is Python's: a
  negative index counts from the end, and an index out of range raises \<open>IndexError\<close>.
\<close>

definition getitem :: "'a list \<Rightarrow> int \<Rightarrow> pyerror + 'a" where
  "getitem xs i =
     (let n = int (length xs); j = (if i < 0 then n + i else i)
      in if 0 \<le> j \<and> j < n then Inr (xs ! nat j) else Inl IndexError)"

definition indirectQ :: "switch_info_ex \<Rightarrow> bool" where
  "indirectQ object = is_indirect object"

definition base :: "switch_info_ex \<Rightarrow> int" where
  "base object = (if is_indirect object then ind_lowcase object else 0)"

definition count' :: "switch_info_ex \<Rightarrow> int" where
  "count' object = ncases object"

definition branch :: "(int \<Rightarrow> int \<Rightarrow> int list) \<Rightarrow> switch_info_ex \<Rightarrow> int list" where
  "branch array object =
     (if indirectQ object then array (jumps object) (jcases object)
      else array (jumps object) (ncases object))"

definition index' :: "(int \<Rightarrow> int \<Rightarrow> int list) \<Rightarrow> switch_info_ex \<Rightarrow> int list" where
  "index' array object =
     (if indirectQ object then array (lowcase object) (ncases object)
      else array (jumps object) 0)"

definition switch_case ::
  "(int \<Rightarrow> int \<Rightarrow> int list) \<Rightarrow> switch_info_ex \<Rightarrow> int \<Rightarrow> pyerror + int" where
  "switch_case array object c =
     (if c < base object \<or> c \<ge> count' object + base object then Inl ValueError
      else
        (let idx = c - base object
         in if indirectQ object then
              (case getitem (index' array object) idx of
                 Inl e \<Rightarrow> Inl e
               | Inr idx \<Rightarrow> getitem (branch array object) idx)
            else getitem (branch array object) idx))"

text \<open>
  An indirect switch of three cases from 5 on over two branches, in a database whose
  arrays hold zeros.
\<close>

definition example_switch :: switch_info_ex where
  "example_switch =
     \<lparr>startea = 4096, jumps = 8192, lowcase = 8448, defjump = 4200, ncases = 3, jcases = 2,
      regnum = 0, regdtyp = 2, ind_lowcase = 5, is_indirect = True, is_subtract = False\<rparr>"

definition example_array :: "int \<Rightarrow> int \<Rightarrow> int list" where
  "example_array ea n = replicate (nat n) 0"

section \<open>Simplification setup\<close>

text \<open>
  The recursive equations of the two functions defined by \<open>function\<close> are unfolded by
  hand, and the host's constants by name.
\<close>

declare siftdown_loop.simps [simp del]
declare ancestors.simps [simp del]

lemmas idaapi_flags =
  FF_MASKSIZE_def FF_MASK_def FF_DATA_def FF_SIGN_def FF_0OFF_def FF_1OFF_def FF_BYTE_def
  FF_WORD_def FF_DWRD_def FF_QWRD_def FF_TBYT_def FF_ASCI_def FF_STRU_def FF_OWRD_def
  FF_FLOAT_def FF_DOUBLE_def FF_PACKREAL_def FF_ALIGN_def FF_3BYTE_def FF_YWRD_def
  byteflag_def wordflag_def tribyteflag_def dwrdflag_def qwrdflag_def tbytflag_def
  owrdflag_def ywrdflag_def floatflag_def doubleflag_def packrealflag_def asciflag_def
  alignflag_def struflag_def offflag_def ASCSTR_TERMCHR_def ASCSTR_UNICODE_def

section \<open>Properties of priorityhook\<close>

subsection \<open>heappush keeps the entries\<close>

lemma mset_siftdown_loop:
  "pos < length heap \<Longrightarrow>
   mset (siftdown_loop heap startpos pos x) = add_mset x (mset heap - {#heap ! pos#})"
proof (induction heap startpos pos x rule: siftdown_loop.induct)
  case (1 heap startpos pos newitem)
  show ?case
  proof (cases "pos > startpos \<and> newitem < heap ! ((pos - 1) div 2)")
    case True
    let ?pp = "(pos - 1) div 2"
    from True 1(2) have pp: "?pp < pos" "?pp < length heap" by auto
    have "mset (siftdown_loop (heap[pos := heap ! ?pp]) startpos ?pp newitem)
          = add_mset newitem (mset (heap[pos := heap ! ?pp]) - {#(heap[pos := heap ! ?pp]) ! ?pp#})"
      using 1(1)[of ?pp "heap ! ?pp"] True pp by simp
    moreover have "(heap[pos := heap ! ?pp]) ! ?pp = heap ! ?pp"
      using pp by simp
    moreover have "mset (heap[pos := heap ! ?pp]) = add_mset (heap ! ?pp) (mset heap - {#heap ! pos#})"
      using 1(2) by (simp add: mset_update)
    ultimately show ?thesis
      using True by (subst siftdown_loop.simps) (simp add: Let_def)
  next
    case False
    then show ?thesis
      using 1(2) by (subst siftdown_loop.simps) (auto simp: Let_def mset_update)
  qed
qed

lemma mset_heappush: "mset (heappush heap item) = add_mset item (mset heap)"
  by (simp add: heappush_def siftdown_def mset_siftdown_loop)

lemma mset_single_list: "mset xs = {#x#} \<Longrightarrow> xs = [x]"
  by (cases xs) auto

lemma filter_heappush_new:
  assumes "\<forall>(p, f) \<in> set q. f \<noteq> callable"
  shows "filter (\<lambda>(p, f). f = callable) (heappush q (priority, callable)) = [(priority, callable)]"
proof -
  have "filter_mset (\<lambda>(p, f). f = callable) (mset q) = {#}"
    using assms by auto
  then have "mset (filter (\<lambda>(p, f). f = callable) (heappush q (priority, callable)))
             = {#(priority, callable)#}"
    by (simp add: mset_heappush)
  then show ?thesis by (rule mset_single_list)
qed

subsection \<open>enable and disable\<close>

text \<open>
  C7. The claim: \<open>enable\<close> on an event that is not disabled and \<open>disable\<close> on an event
  that is not registered return \<open>False\<close> and never raise. On a fresh dispatcher both
  calls raise \<open>NameError\<close> instead, from the unbound \<open>cls\<close> in the log line's arguments.
\<close>

theorem enable_disable_raise_NameError:
  "enable (init {''ev_newprc''}) ''ev_newprc'' = Inl NameError
   \<and> disable (init {''ev_newprc''}) ''ev_newprc'' = Inl NameError"
  by (simp add: enable_def disable_def init_def unbound_cls_def)

subsection \<open>add\<close>

lemma add_registers_once:
  assumes "name \<in> hookable self"
  shows "\<exists>s' q. add self name callable priority = Inr (True, s') \<and> hookable s' = hookable self
           \<and> cache s' name = Some q
           \<and> filter (\<lambda>(p, f). f = callable) q = [(priority, callable)]"
proof (cases "cache self name")
  case None
  have "filter (\<lambda>(p, f). f = callable) (heappush [] (priority, callable)) = [(priority, callable)]"
    by (rule filter_heappush_new) simp
  with None assms show ?thesis
    by (simp add: add_def apply_hook_def discard_def domIff)
next
  case (Some q0)
  let ?res = "filter (\<lambda>(p, f). f \<noteq> callable) q0"
  have "filter (\<lambda>(p, f). f = callable) (heappush ?res (priority, callable)) = [(priority, callable)]"
    by (rule filter_heappush_new) auto
  with Some assms show ?thesis
    by (cases "?res = []") (auto simp: add_def apply_hook_def discard_def Let_def)
qed

text \<open>
  C8. After \<open>add(name, callable, p1)\<close> and then \<open>add(name, callable, p2)\<close>, on an event
  the hook object has, both calls return \<open>True\<close> and the callable occurs exactly once in
  \<open>get(name)\<close>: the queue holds it once, at the priority \<open>p2\<close>, the first registration
  having been discarded.
\<close>

theorem add_twice_registers_once:
  assumes "name \<in> hookable self"
  shows "\<exists>s1 s2. add self name callable p1 = Inr (True, s1)
           \<and> add s1 name callable p2 = Inr (True, s2)
           \<and> count_list (fst (get s2 name)) callable = 1
           \<and> filter (\<lambda>(p, f). f = callable) (the (cache s2 name)) = [(p2, callable)]"
proof -
  from add_registers_once[OF assms, of callable p1]
  obtain s1 where s1: "add self name callable p1 = Inr (True, s1)" "hookable s1 = hookable self"
    by blast
  with assms have "name \<in> hookable s1" by simp
  from add_registers_once[OF this, of callable p2]
  obtain s2 q where s2: "add s1 name callable p2 = Inr (True, s2)" "cache s2 name = Some q"
    "filter (\<lambda>(p, f). f = callable) q = [(p2, callable)]"
    by blast
  have "count_list (map snd q) callable = length (filter (\<lambda>(p, f). f = callable) q)"
    by (induction q) auto
  with s2 have "count_list (fst (get s2 name)) callable = 1"
    by (simp add: get_def)
  with s1 s2 show ?thesis by simp
qed

theorem add_twice_registers_once_witness:
  "\<exists>s1 s2. add (init {''ev''}) ''ev'' 7 50 = Inr (True, s1)
     \<and> add s1 ''ev'' 7 10 = Inr (True, s2)
     \<and> count_list (fst (get s2 ''ev'')) 7 = 1
     \<and> filter (\<lambda>(p, f). f = 7) (the (cache s2 ''ev'')) = [(10, 7)]"
proof -
  have "''ev'' \<in> hookable (init {''ev''})" by (simp add: init_def)
  from add_twice_registers_once[OF this, of 7 50 10] show ?thesis .
qed

subsection \<open>Every queued callable has its traceback\<close>

lemma traceback_kept_init: "traceback_kept (init names)"
  by (simp add: traceback_kept_def init_def)

lemma set_heappush: "set (heappush q x) = insert x (set q)"
  using mset_heappush[of q x] by (metis set_mset_add_mset_insert set_mset_mset)

lemma traceback_keptD:
  "traceback_kept self \<Longrightarrow> cache self name = Some q \<Longrightarrow> (p, f) \<in> set q \<Longrightarrow>
   (name, f) \<in> traceback self"
  unfolding traceback_kept_def by blast

lemma traceback_keptI:
  "(\<And>name q p f. cache self name = Some q \<Longrightarrow> (p, f) \<in> set q \<Longrightarrow> (name, f) \<in> traceback self)
   \<Longrightarrow> traceback_kept self"
  unfolding traceback_kept_def by blast

lemma traceback_kept_discard:
  assumes "traceback_kept self" "discard self name callable = Inr (b, s')"
  shows "traceback_kept s'"
proof (rule traceback_keptI)
  fix n q p f
  assume q: "cache s' n = Some q" and m: "(p, f) \<in> set q"
  from assms(2) have t: "traceback s' = traceback self"
    by (auto simp: discard_def Let_def split: if_splits option.splits)
  from assms(2) q obtain q0 where "cache self n = Some q0" "set q \<subseteq> set q0"
    by (auto simp: discard_def Let_def split: if_splits option.splits)
  with m traceback_keptD[OF assms(1)] t show "(n, f) \<in> traceback s'" by blast
qed

lemma traceback_kept_get:
  assumes "traceback_kept self"
  shows "traceback_kept (snd (get self name))"
proof (rule traceback_keptI)
  fix n q p f
  assume q: "cache (snd (get self name)) n = Some q" and m: "(p, f) \<in> set q"
  from q m have "cache self n = Some q"
    by (auto simp: get_def Let_def split: if_splits option.splits)
  with m traceback_keptD[OF assms] show "(n, f) \<in> traceback (snd (get self name))"
    by (simp add: get_def Let_def)
qed

lemma traceback_kept_add:
  assumes "traceback_kept self" "add self name callable priority = Inr (b, s')"
  shows "traceback_kept s'"
proof -
  let ?s0 = "if name \<notin> dom (cache self) then self\<lparr>installed := insert name (installed self)\<rparr>
             else self"
  have k0: "traceback_kept ?s0" using assms(1) by (simp add: traceback_kept_def)
  from assms(2) obtain b1 s1 where d: "discard ?s0 name callable = Inr (b1, s1)"
    and s': "s' = s1\<lparr>cache := (cache s1)(name \<mapsto>
                      heappush (case cache s1 name of None \<Rightarrow> [] | Some q \<Rightarrow> q)
                        (priority, callable)),
                    traceback := insert (name, callable) (traceback s1)\<rparr>"
    by (auto simp: add_def apply_hook_def Let_def split: if_splits sum.splits)
  from traceback_kept_discard[OF k0 d] have k1: "traceback_kept s1" .
  show ?thesis
  proof (rule traceback_keptI)
    fix n q p f
    assume q: "cache s' n = Some q" and m: "(p, f) \<in> set q"
    show "(n, f) \<in> traceback s'"
    proof (cases "n = name")
      case False
      with q s' have "cache s1 n = Some q" by simp
      from traceback_keptD[OF k1 this m] s' show ?thesis by simp
    next
      case True
      with q s' have "q = heappush (case cache s1 name of None \<Rightarrow> [] | Some q \<Rightarrow> q)
                        (priority, callable)" by simp
      with m have "(p, f) = (priority, callable)
                   \<or> (p, f) \<in> set (case cache s1 name of None \<Rightarrow> [] | Some q \<Rightarrow> q)"
        by (simp add: set_heappush)
      then show ?thesis
      proof
        assume "(p, f) = (priority, callable)"
        with True s' show ?thesis by simp
      next
        assume "(p, f) \<in> set (case cache s1 name of None \<Rightarrow> [] | Some q \<Rightarrow> q)"
        then obtain q1 where "cache s1 name = Some q1" "(p, f) \<in> set q1"
          by (cases "cache s1 name") auto
        from traceback_keptD[OF k1 this] True s' show ?thesis by simp
      qed
    qed
  qed
qed

lemma traceback_kept_enable:
  "traceback_kept self \<Longrightarrow> enable self name = Inr (b, s') \<Longrightarrow> traceback_kept s'"
  by (auto simp: enable_def traceback_kept_def split: if_splits sum.splits) blast

lemma traceback_kept_disable:
  "traceback_kept self \<Longrightarrow> disable self name = Inr (b, s') \<Longrightarrow> traceback_kept s'"
  by (auto simp: disable_def traceback_kept_def split: if_splits sum.splits) blast

subsection \<open>Dispatch\<close>

lemma add_fresh:
  "name \<in> hookable s \<Longrightarrow> cache s name = None \<Longrightarrow>
   add s name f p = Inr (True, s\<lparr>installed := insert name (installed s),
                               cache := (cache s)(name \<mapsto> heappush [] (p, f)),
                               traceback := insert (name, f) (traceback s)\<rparr>)"
  by (simp add: add_def apply_hook_def discard_def domIff)

lemma add_other:
  "name \<in> hookable s \<Longrightarrow> cache s name = Some q \<Longrightarrow> q \<noteq> [] \<Longrightarrow> f \<notin> snd ` set q \<Longrightarrow>
   add s name f p = Inr (True, s\<lparr>cache := (cache s)(name \<mapsto> heappush q (p, f)),
                               traceback := insert (name, f) (traceback s)\<rparr>)"
proof -
  assume a: "name \<in> hookable s" "cache s name = Some q" "q \<noteq> []" "f \<notin> snd ` set q"
  have "filter (\<lambda>(p, g). g \<noteq> f) q = q"
    using a(4) by (auto simp: filter_id_conv image_iff)
  with a show ?thesis
    by (auto simp: add_def apply_hook_def discard_def Let_def domIff)
qed

lemma add_Inr_hookable: "add s name f p = Inr r \<Longrightarrow> name \<in> hookable s"
  by (auto simp: add_def apply_hook_def discard_def split: if_splits sum.splits option.splits)

lemma heappush_first: "heappush [] (30::int, c::nat) = [(30, c)]"
  by (simp add: heappush_def siftdown_def siftdown_loop.simps)

lemma heappush_second: "heappush [(30::int, c::nat)] (10, d) = [(10, d), (30, c)]"
  by (simp add: heappush_def siftdown_def siftdown_loop.simps)

lemma heappush_third:
  "heappush [(10::int, d::nat), (30, c)] (20, e) = [(10, d), (30, c), (20, e)]"
  by (simp add: heappush_def siftdown_def siftdown_loop.simps)

lemma cache_after_three:
  assumes "cache s name = None" "distinct [c30, c10, c20]"
    and "add s name c30 30 = Inr (b1, s1)"
    and "add s1 name c10 10 = Inr (b2, s2)"
    and "add s2 name c20 20 = Inr (b3, s3)"
  shows "cache s3 name = Some [(10, c10), (30, c30), (20, c20)] \<and> disabled s3 = disabled s
         \<and> name \<in> installed s3
         \<and> {(name, c10), (name, c20), (name, c30)} \<subseteq> traceback s3"
proof -
  have h: "name \<in> hookable s" using assms(3) by (rule add_Inr_hookable)
  have e1: "s1 = s\<lparr>installed := insert name (installed s),
                   cache := (cache s)(name \<mapsto> heappush [] (30, c30)),
                   traceback := insert (name, c30) (traceback s)\<rparr>"
    using add_fresh[OF h assms(1), of c30 30] assms(3) by simp
  have e2: "s2 = s1\<lparr>cache := (cache s1)(name \<mapsto> heappush [(30, c30)] (10, c10)),
                   traceback := insert (name, c10) (traceback s1)\<rparr>"
    using add_other[of name s1 "[(30, c30)]" c10 10] assms(2,4) h e1 heappush_first by simp
  have e3: "s3 = s2\<lparr>cache := (cache s2)(name \<mapsto> heappush [(10, c10), (30, c30)] (20, c20)),
                   traceback := insert (name, c20) (traceback s2)\<rparr>"
    using add_other[of name s2 "[(10, c10), (30, c30)]" c20 20] assms(2,5) h e1 e2
      heappush_second by simp
  show ?thesis using e1 e2 e3 heappush_third by auto
qed

lemma fst_run_hooks_continue:
  "continues (call f) \<Longrightarrow>
   fst (run_hooks self name call ((p, f) # rest)) = f # fst (run_hooks self name call rest)"
  by (cases "run_hooks self name call rest") (auto simp: continues_def)

lemma fst_run_hooks_stop:
  "\<not> continues (call f) \<Longrightarrow> fst (run_hooks self name call ((p, f) # rest)) = [f]"
  by (cases "call f") (auto simp: continues_def split: retval.splits)

lemma fst_method_enabled:
  "cache self name = Some q \<Longrightarrow> name \<notin> disabled self \<Longrightarrow>
   fst (hook_method self name call) = fst (run_hooks self name call (nsmallest (length q) q))"
  by (cases "run_hooks self name call (nsmallest (length q) q)")
     (auto simp: hook_method_def domIff split: option.splits)

text \<open>
  Where the first \<open>add\<close> finds no queue of the event, it installs the trampoline, and
  a dispatch invokes the callbacks added at 30, 10 and 20 in the order 10, 20, 30.
\<close>

lemma dispatch_order_when_installed:
  assumes "cache s name = None" "name \<notin> disabled s" "distinct [c30, c10, c20]"
    and "add s name c30 30 = Inr (b1, s1)"
    and "add s1 name c10 10 = Inr (b2, s2)"
    and "add s2 name c20 20 = Inr (b3, s3)"
  shows "(continues (call c10) \<and> continues (call c20)
            \<longrightarrow> fst (dispatch s3 name call) = [c10, c20, c30])
       \<and> (call c10 = Returns STOP \<longrightarrow> fst (dispatch s3 name call) = [c10])
       \<and> (fst (dispatch s3 name call) = [c10] \<or> fst (dispatch s3 name call) = [c10, c20]
            \<or> fst (dispatch s3 name call) = [c10, c20, c30])"
proof -
  from cache_after_three[OF assms(1,3,4,5,6)]
  have c: "cache s3 name = Some [(10, c10), (30, c30), (20, c20)]" "name \<notin> disabled s3"
    and i: "name \<in> installed s3"
    using assms(2) by auto
  have srt: "nsmallest (length [(10::int, c10), (30, c30), (20, c20)])
               [(10::int, c10), (30, c30), (20, c20)] = [(10, c10), (20, c20), (30, c30)]"
    by (simp add: nsmallest_def)
  have "fst (hook_method s3 name call)
           = fst (run_hooks s3 name call [(10, c10), (20, c20), (30, c30)])"
    unfolding fst_method_enabled[OF c, of call] srt ..
  with i have m: "fst (dispatch s3 name call)
           = fst (run_hooks s3 name call [(10, c10), (20, c20), (30, c30)])"
    by (simp add: dispatch_def)
  have stop: "\<not> continues (Returns STOP)" by (simp add: continues_def)
  show ?thesis
  proof (cases "continues (call c10)")
    case False
    then show ?thesis using m stop by (auto simp: fst_run_hooks_stop simp del: run_hooks.simps)
  next
    case c10: True
    show ?thesis
    proof (cases "continues (call c20)")
      case False
      then show ?thesis using m c10 stop
        by (auto simp: fst_run_hooks_stop fst_run_hooks_continue simp del: run_hooks.simps)
    next
      case c20: True
      show ?thesis
      proof (cases "continues (call c30)")
        case False
        then show ?thesis using m c10 c20 stop
          by (auto simp: fst_run_hooks_stop fst_run_hooks_continue simp del: run_hooks.simps)
      next
        case True
        have "fst (run_hooks s3 name call []) = []" by simp
        with True show ?thesis using m c10 c20 stop
          by (auto simp: fst_run_hooks_continue simp del: run_hooks.simps)
      qed
    qed
  qed
qed

lemma three_hooks_reached:
  "\<exists>s1 s2. add (init {''ev''}) ''ev'' 1 30 = Inr (True, s1)
     \<and> add s1 ''ev'' 2 10 = Inr (True, s2) \<and> add s2 ''ev'' 3 20 = Inr (True, three_hooks)"
  by (simp add: add_def apply_hook_def discard_def init_def three_hooks_def
        heappush_first heappush_second heappush_third)

lemma three_hooks_dispatch:
  "dispatch three_hooks ''ev'' (\<lambda>f. Returns CONTINUE) = ([2, 3, 1], [], Inr ())"
  by (simp add: dispatch_def hook_method_def three_hooks_def nsmallest_def)

text \<open>
  C2. The claim: with three callbacks registered at the priorities 30, 10 and 20, a
  dispatch invokes them in the order 10, 20, 30. On a fresh dispatcher, \<open>get('ev')\<close>
  stores an empty queue for the event. The three calls of \<open>add\<close> that follow each find
  the name in the cache, so none makes a trampoline or sets it on the hook object. The
  three callbacks are registered, in the queue that \<open>get\<close> shows, and a dispatch of the
  event invokes none of them.
\<close>

theorem dispatch_after_get_invokes_nothing:
  "\<exists>s0 s1 s2 s3.
      get (init {''ev''}) ''ev'' = ([], s0)
    \<and> add s0 ''ev'' 1 30 = Inr (True, s1)
    \<and> add s1 ''ev'' 2 10 = Inr (True, s2)
    \<and> add s2 ''ev'' 3 20 = Inr (True, s3)
    \<and> cache s3 ''ev'' = Some [(10, 2), (30, 1), (20, 3)]
    \<and> fst (get s3 ''ev'') = [2, 1, 3]
    \<and> ''ev'' \<notin> installed s3
    \<and> dispatch s3 ''ev'' (\<lambda>f. Returns CONTINUE) = ([], [], Inr ())"
  by (simp add: get_def add_def apply_hook_def discard_def init_def dispatch_def
        heappush_first heappush_second heappush_third)

lemma two_hooks_reached:
  "\<exists>s1. add (init {''ev''}) ''ev'' 1 10 = Inr (True, s1) \<and> add s1 ''ev'' 2 20 = Inr (True, two_hooks)"
  by (simp add: add_def apply_hook_def discard_def init_def two_hooks_def heappush_def
        siftdown_def siftdown_loop.simps insert_commute)

lemma run_hooks_NonResult:
  "run_hooks self name (call(f := Returns NonResult)) q
     = run_hooks self name (call(f := Returns CONTINUE)) q"
  by (induction q) (auto split: outcome.splits prod.splits)

lemma run_hooks_OtherResult:
  "run_hooks self name call q = (calls, lg, err) \<Longrightarrow> f \<in> set calls \<Longrightarrow>
   call f = Returns OtherResult \<Longrightarrow>
   err = Some TypeError \<and> last calls = f \<and> Fatal f \<notin> set lg \<and> Warn f \<notin> set lg"
proof (induction q arbitrary: calls lg err)
  case Nil
  then show ?case by simp
next
  case (Cons a q)
  obtain p func where a: "a = (p, func)" by (cases a)
  show ?case
  proof (cases "func = f")
    case True
    with Cons.prems a show ?thesis by auto
  next
    case False
    obtain calls' lg' err' where r: "run_hooks self name call q = (calls', lg', err')"
      by (cases "run_hooks self name call q")
    show ?thesis
      using Cons.prems a False r Cons.IH[OF r]
      by (cases "call func") (auto split: retval.splits if_splits)
  qed
qed

lemma run_hooks_Raises:
  "run_hooks self name call q = (calls, lg, err) \<Longrightarrow> f \<in> set calls \<Longrightarrow> call f = Raises \<Longrightarrow>
   \<forall>(p, g) \<in> set q. (name, g) \<in> traceback self \<Longrightarrow>
   err = None \<and> last calls = f \<and> Fatal f \<in> set lg \<and> Warn f \<in> set lg"
proof (induction q arbitrary: calls lg err)
  case Nil
  then show ?case by simp
next
  case (Cons a q)
  obtain p func where a: "a = (p, func)" by (cases a)
  show ?case
  proof (cases "func = f")
    case True
    with Cons.prems a show ?thesis by auto
  next
    case False
    obtain calls' lg' err' where r: "run_hooks self name call q = (calls', lg', err')"
      by (cases "run_hooks self name call q")
    from Cons.prems(4) have t: "\<forall>(p, g) \<in> set q. (name, g) \<in> traceback self" by simp
    show ?thesis
      using Cons.prems(1,2,3) a False r Cons.IH[OF r _ _ t]
      by (cases "call func") (auto split: retval.splits if_splits)
  qed
qed

lemma dispatch_run_hooks:
  assumes "dispatch self name call = (calls, lg, r)" "f \<in> set calls"
  shows "\<exists>q err. cache self name = Some q
           \<and> run_hooks self name call (nsmallest (length q) q) = (calls, lg, err)
           \<and> r = (case err of None \<Rightarrow> Inr () | Some e \<Rightarrow> Inl e)"
proof -
  from assms have m: "hook_method self name call = (calls, lg, r)"
    by (auto simp: dispatch_def split: if_splits)
  with assms(2) have en: "name \<in> dom (cache self) \<and> name \<notin> disabled self"
    by (auto simp: hook_method_def split: if_splits)
  then obtain q where q: "cache self name = Some q" by auto
  obtain calls' lg' err where rh: "run_hooks self name call (nsmallest (length q) q)
                                     = (calls', lg', err)"
    by (cases "run_hooks self name call (nsmallest (length q) q)")
  with m en q have "calls' = calls" "lg' = lg"
    "r = (case err of None \<Rightarrow> Inr () | Some e \<Rightarrow> Inl e)"
    by (auto simp: hook_method_def Let_def split: option.splits)
  with q rh show ?thesis by simp
qed

text \<open>
  C6, as the code has it. A callback that returns a value which is no instance of
  \<open>result\<close> is treated as one that returns \<open>CONTINUE\<close>: the dispatch is the same, callback
  for callback and log line for log line. A callback that is invoked and returns an
  instance of \<open>result\<close> other than \<open>CONTINUE\<close> and \<open>STOP\<close> ends the dispatch with a
  \<open>TypeError\<close> that leaves the trampoline; it is the last callback invoked and nothing
  is logged for it. A callback that is invoked and raises, in a dispatcher whose queued
  callables have their tracebacks (as \<open>add\<close> keeps it), is logged and is the last
  callback invoked, and no exception leaves the trampoline.
\<close>

theorem non_result_continues_other_result_raises:
  "dispatch self name (call(f := Returns NonResult)) = dispatch self name (call(f := Returns CONTINUE))
   \<and> (dispatch self name call = (calls, lg, r) \<and> f \<in> set calls \<and> call f = Returns OtherResult
        \<longrightarrow> r = Inl TypeError \<and> last calls = f \<and> Fatal f \<notin> set lg)
   \<and> (traceback_kept self \<and> dispatch self name call = (calls, lg, r) \<and> f \<in> set calls
        \<and> call f = Raises
        \<longrightarrow> r = Inr () \<and> last calls = f \<and> Fatal f \<in> set lg \<and> Warn f \<in> set lg)"
proof -
  have 1: "dispatch self name (call(f := Returns NonResult))
           = dispatch self name (call(f := Returns CONTINUE))"
    by (simp add: dispatch_def hook_method_def run_hooks_NonResult)
  have 2: "r = Inl TypeError \<and> last calls = f \<and> Fatal f \<notin> set lg"
    if "dispatch self name call = (calls, lg, r)" "f \<in> set calls" "call f = Returns OtherResult"
  proof -
    from dispatch_run_hooks[OF that(1,2)] obtain q err where
      rh: "run_hooks self name call (nsmallest (length q) q) = (calls, lg, err)"
      and r: "r = (case err of None \<Rightarrow> Inr () | Some e \<Rightarrow> Inl e)"
      by blast
    from run_hooks_OtherResult[OF rh that(2,3)] r show ?thesis by simp
  qed
  have 3: "r = Inr () \<and> last calls = f \<and> Fatal f \<in> set lg \<and> Warn f \<in> set lg"
    if "traceback_kept self" "dispatch self name call = (calls, lg, r)" "f \<in> set calls"
      "call f = Raises"
  proof -
    from dispatch_run_hooks[OF that(2,3)] obtain q err where
      q: "cache self name = Some q"
      and rh: "run_hooks self name call (nsmallest (length q) q) = (calls, lg, err)"
      and r: "r = (case err of None \<Rightarrow> Inr () | Some e \<Rightarrow> Inl e)"
      by blast
    from that(1) q have "\<forall>(p, g) \<in> set q. (name, g) \<in> traceback self"
      by (simp add: traceback_kept_def)
    moreover have "set (nsmallest (length q) q) \<subseteq> set q"
      by (simp add: nsmallest_def)
    ultimately have "\<forall>(p, g) \<in> set (nsmallest (length q) q). (name, g) \<in> traceback self"
      by blast
    from run_hooks_Raises[OF rh that(3,4) this] r show ?thesis by simp
  qed
  from 1 2 3 show ?thesis by blast
qed

theorem non_result_continues_other_result_raises_witness:
  "dispatch two_hooks ''ev'' ((\<lambda>f. Returns STOP)(1 := Returns NonResult))
     = dispatch two_hooks ''ev'' ((\<lambda>f. Returns STOP)(1 := Returns CONTINUE))
   \<and> dispatch two_hooks ''ev'' (\<lambda>f. Returns OtherResult) = ([1], [], Inl TypeError)
   \<and> dispatch two_hooks ''ev'' (\<lambda>f. Raises) = ([1], [Fatal 1, Warn 1], Inr ())"
proof -
  have m: "dispatch two_hooks ''ev'' (\<lambda>f. Returns OtherResult) = ([1], [], Inl TypeError)"
    by (simp add: dispatch_def hook_method_def two_hooks_def nsmallest_def)
  have n: "dispatch two_hooks ''ev'' (\<lambda>f. Raises) = ([1], [Fatal 1, Warn 1], Inr ())"
    by (simp add: dispatch_def hook_method_def two_hooks_def nsmallest_def)
  have k: "traceback_kept two_hooks"
    by (auto simp: traceback_kept_def two_hooks_def split: if_splits)
  have i: "(1::nat) \<in> set [1]" by simp
  note t = non_result_continues_other_result_raises
  from t[where self = two_hooks and name = "''ev''" and call = "\<lambda>f. Returns STOP" and f = 1]
  have 1: "dispatch two_hooks ''ev'' ((\<lambda>f. Returns STOP)(1 := Returns NonResult))
             = dispatch two_hooks ''ev'' ((\<lambda>f. Returns STOP)(1 := Returns CONTINUE))"
    by (rule conjunct1)
  from t[where self = two_hooks and name = "''ev''" and call = "\<lambda>f. Returns OtherResult"
           and f = 1 and calls = "[1]" and lg = "[]" and r = "Inl TypeError"] m i
  have 2: "last [1::nat] = 1" by blast
  from t[where self = two_hooks and name = "''ev''" and call = "\<lambda>f. Raises"
           and f = 1 and calls = "[1]" and lg = "[Fatal 1, Warn 1]" and r = "Inr ()"] n k i
  have 3: "Fatal 1 \<in> set [Fatal 1, Warn 1]" by blast
  from 1 m n show ?thesis by blast
qed

text \<open>
  C6, as the claim states it, fails. Of two callbacks, let the first raise: it is
  logged and the second is not invoked. Let it return \<open>None\<close> instead: nothing is logged
  and the second is invoked. Let it return another instance of \<open>result\<close>: the
  \<open>TypeError\<close> leaves the trampoline.
\<close>

theorem non_result_not_isolated_counterexample:
  "dispatch two_hooks ''ev'' (\<lambda>f. if f = 1 then Raises else Returns CONTINUE)
     = ([1], [Fatal 1, Warn 1], Inr ())
   \<and> dispatch two_hooks ''ev'' (\<lambda>f. if f = 1 then Returns NonResult else Returns CONTINUE)
     = ([1, 2], [], Inr ())
   \<and> dispatch two_hooks ''ev'' (\<lambda>f. if f = 1 then Returns OtherResult else Returns CONTINUE)
     = ([1], [], Inl TypeError)"
  by (simp add: dispatch_def hook_method_def two_hooks_def nsmallest_def)

section \<open>Properties of typemap\<close>

subsection \<open>The inverted table\<close>

lemma invert_into_Cons:
  "invert_into msk t ((s, (f, x)) # items) tbl = invert_into msk t items (tbl(f AND msk \<mapsto> (t, s)))"
  by (simp add: invert_into_def)

lemma invert_into_other:
  "\<forall>(s, (f, x)) \<in> set items. f AND msk \<noteq> dt \<Longrightarrow> invert_into msk t items tbl dt = tbl dt"
  unfolding invert_into_def
  by (induction items arbitrary: tbl) auto

lemma invert_into_member:
  "\<exists>(s, (f, x)) \<in> set items. f AND msk = dt \<Longrightarrow>
   \<exists>(s, (f, x)) \<in> set items. f AND msk = dt \<and> invert_into msk t items tbl dt = Some (t, s)"
proof (induction items arbitrary: tbl)
  case Nil
  then show ?case by simp
next
  case (Cons a items)
  obtain s f x where a: "a = (s, (f, x))" by (cases a)
  show ?case
  proof (cases "\<exists>(s, (f, x)) \<in> set items. f AND msk = dt")
    case True
    from Cons.IH[OF True, of "tbl(f AND msk \<mapsto> (t, s))"]
    obtain s' f' x' where m: "(s', (f', x')) \<in> set items" "f' AND msk = dt"
      "invert_into msk t items (tbl(f AND msk \<mapsto> (t, s))) dt = Some (t, s')"
      by blast
    from m(3) a have "invert_into msk t (a # items) tbl dt = Some (t, s')"
      by (simp add: invert_into_Cons)
    with m(1,2) show ?thesis by force
  next
    case False
    then have o: "\<forall>(s, (f, x)) \<in> set items. f AND msk \<noteq> dt" by auto
    from False Cons.prems a have "f AND msk = dt" by auto
    with invert_into_other[OF o, of t "tbl(f AND msk \<mapsto> (t, s))"] a
    have "invert_into msk t (a # items) tbl dt = Some (t, s)"
      by (simp add: invert_into_Cons)
    with \<open>f AND msk = dt\<close> a show ?thesis by force
  qed
qed

lemma invert_into_unique:
  assumes "(s0, (f0, x0)) \<in> set items" "f0 AND msk = dt"
    and "\<forall>(s, (f, x)) \<in> set items. f AND msk = dt \<longrightarrow> s = s0"
  shows "invert_into msk t items tbl dt = Some (t, s0)"
proof -
  from assms(1,2) have "\<exists>(s, (f, x)) \<in> set items. f AND msk = dt" by auto
  from invert_into_member[OF this, of t tbl] assms(3) show ?thesis by auto
qed

lemma decimalmap_items_set:
  assumes "set (decimalmap_order h) = {4, 8, 10, 12}"
  shows "set (decimalmap_items h)
          = {(Size 4, (floatflag, -1)), (Size 8, (doubleflag, -1)),
             (Size 10, (packrealflag, -1)), (Size 12, (packrealflag, -1))}"
  using assms by (simp add: decimalmap_items_def decimalmap_init_def)

lemma decimal_step:
  assumes "set (decimalmap_order h) = {4, 8, 10, 12}"
  shows "invert_into FF_MASKSIZE Kfloat (decimalmap_items h) tbl dt
           = (if dt = FF_FLOAT then Some (Kfloat, Size 4)
              else if dt = FF_DOUBLE then Some (Kfloat, Size 8)
              else if dt = FF_PACKREAL
                then invert_into FF_MASKSIZE Kfloat (decimalmap_items h) tbl FF_PACKREAL
              else tbl dt)"
proof -
  note s = decimalmap_items_set[OF assms]
  have 1: "invert_into FF_MASKSIZE Kfloat (decimalmap_items h) tbl FF_FLOAT = Some (Kfloat, Size 4)"
    by (rule invert_into_unique[where ?f0.0 = floatflag and ?x0.0 = "-1"])
       (auto simp: s idaapi_flags)
  have 2: "invert_into FF_MASKSIZE Kfloat (decimalmap_items h) tbl FF_DOUBLE = Some (Kfloat, Size 8)"
    by (rule invert_into_unique[where ?f0.0 = doubleflag and ?x0.0 = "-1"])
       (auto simp: s idaapi_flags)
  have 3: "invert_into FF_MASKSIZE Kfloat (decimalmap_items h) tbl dt = tbl dt"
    if "dt \<noteq> FF_FLOAT" "dt \<noteq> FF_DOUBLE" "dt \<noteq> FF_PACKREAL"
    using that by (intro invert_into_other) (auto simp: s idaapi_flags)
  from 1 2 3 show ?thesis by simp
qed

lemma integermap_set:
  "set (integermap_init h)
     = {(Size 1, (byteflag, -1)), (Size 2, (wordflag, -1)), (Size 4, (dwrdflag, -1)),
        (Size 8, (qwrdflag, -1)), (Size 10, (tbytflag, -1)), (Size 16, (owrdflag, -1))}
       \<union> (if version7 h then {} else {(Size 3, (tribyteflag, -1))})
       \<union> (if has_ywrdflag h then {(Size 32, (ywrdflag, -1))} else {})"
  by (cases "version7 h"; cases "has_ywrdflag h") (auto simp: integermap_init_def)

lemma integermap_distinct: "distinct (map fst (integermap_init h))"
  by (cases "version7 h"; cases "has_ywrdflag h") (simp_all add: integermap_init_def)

lemma integermap_item:
  assumes "(k, (f, x)) \<in> set (integermap_init h)"
  shows "f \<in> {byteflag, wordflag, tribyteflag, dwrdflag, qwrdflag, tbytflag, owrdflag, ywrdflag}
         \<and> x = -1 \<and> (\<exists>a > 0. k = Size a)"
  using assms unfolding integermap_set by (auto split: if_splits)

lemma intflag_bits:
  assumes "f \<in> {byteflag, wordflag, tribyteflag, dwrdflag, qwrdflag, tbytflag, owrdflag, ywrdflag}"
  shows "f AND FF_SIGN \<noteq> FF_SIGN" "(f OR FF_SIGN) AND FF_SIGN = FF_SIGN"
    "(f OR FF_SIGN) AND FF_MASKSIZE = f AND FF_MASKSIZE" "(f OR 0) = f"
    "f AND FF_MASKSIZE \<notin> {FF_STRU, FF_ASCI, FF_FLOAT, FF_DOUBLE, FF_PACKREAL}"
    "(offflag OR f) AND FF_MASK
       \<notin> {FF_BYTE, FF_WORD, FF_3BYTE, FF_DWRD, FF_QWRD, FF_TBYT, FF_OWRD, FF_YWRD,
           FF_STRU, FF_ASCI, FF_FLOAT, FF_DOUBLE, FF_PACKREAL}"
    "f AND FF_MASKSIZE \<in> {FF_BYTE, FF_WORD, FF_3BYTE, FF_DWRD, FF_QWRD, FF_TBYT, FF_OWRD, FF_YWRD}"
  using assms by (auto simp: idaapi_flags)

lemma int_class_unique:
  assumes "(k, (f, x)) \<in> set (integermap_init h)" "(k', (f', x')) \<in> set (integermap_init h)"
    and "f' AND FF_MASKSIZE = f AND FF_MASKSIZE"
  shows "k' = k"
  using assms unfolding integermap_set by (auto simp: idaapi_flags split: if_splits)


lemma ptrmap_item:
  assumes "(k, (f, x)) \<in> set (ptrmap_init h)"
  shows "\<exists>g. f = offflag OR g
           \<and> g \<in> {byteflag, wordflag, tribyteflag, dwrdflag, qwrdflag, tbytflag, owrdflag, ywrdflag}"
  using assms integermap_item[of _ _ _ h] by (fastforce simp: ptrmap_init_def)

lemma ptr_layer:
  assumes "dt \<in> {FF_BYTE, FF_WORD, FF_3BYTE, FF_DWRD, FF_QWRD, FF_TBYT, FF_OWRD, FF_YWRD,
                   FF_STRU, FF_ASCI, FF_FLOAT, FF_DOUBLE, FF_PACKREAL}"
  shows "invert_into FF_MASK Ktype (ptrmap_init h) tbl dt = tbl dt"
proof (rule invert_into_other, clarify)
  fix k f x
  assume "(k, (f, x)) \<in> set (ptrmap_init h)" "dt = f AND FF_MASK"
  with ptrmap_item[of k f x h] intflag_bits(6) assms show False by blast
qed

lemma string_layer:
  "dt \<noteq> FF_ASCI \<Longrightarrow> invert_into FF_MASKSIZE Kstr stringmap_init tbl dt = tbl dt"
  by (rule invert_into_other) (auto simp: stringmap_init_def idaapi_flags)

lemma int_layer:
  assumes "(k, (f, x)) \<in> set (integermap_init h)"
  shows "invert_into FF_MASKSIZE Kint (integermap_init h) tbl (f AND FF_MASKSIZE) = Some (Kint, k)"
  using assms
proof (rule invert_into_unique[OF _ refl], clarify)
  fix k' f' x'
  assume "(k', (f', x')) \<in> set (integermap_init h)" "f' AND FF_MASKSIZE = f AND FF_MASKSIZE"
  with assms show "k' = k" by (intro int_class_unique[of k f x h k' f' x'])
qed

lemma inverted_int:
  assumes "set (decimalmap_order h) = {4, 8, 10, 12}"
    and "(k, (f, x)) \<in> set (integermap_init h)"
  shows "inverted_init h (f AND FF_MASKSIZE) = Some (Kint, k)"
proof -
  from integermap_item[OF assms(2)]
  have f: "f \<in> {byteflag, wordflag, tribyteflag, dwrdflag, qwrdflag, tbytflag, owrdflag, ywrdflag}"
    by simp
  note b = intflag_bits(5)[OF f] intflag_bits(7)[OF f]
  have p: "f AND FF_MASKSIZE \<in> {FF_BYTE, FF_WORD, FF_3BYTE, FF_DWRD, FF_QWRD, FF_TBYT, FF_OWRD,
             FF_YWRD, FF_STRU, FF_ASCI, FF_FLOAT, FF_DOUBLE, FF_PACKREAL}"
    using b(2) by blast
  show ?thesis
    using b(1) int_layer[OF assms(2)]
    by (simp add: inverted_init_def Let_def ptr_layer[OF p] string_layer decimal_step[OF assms(1)])
qed

lemma inverted_float:
  assumes "set (decimalmap_order h) = {4, 8, 10, 12}"
  shows "inverted_init h FF_FLOAT = Some (Kfloat, Size 4)"
    and "inverted_init h FF_DOUBLE = Some (Kfloat, Size 8)"
proof -
  have ne: "FF_FLOAT \<noteq> FF_STRU" "FF_DOUBLE \<noteq> FF_STRU" "FF_FLOAT \<noteq> FF_ASCI"
    "FF_DOUBLE \<noteq> FF_ASCI" "FF_DOUBLE \<noteq> FF_FLOAT"
    by (simp_all add: idaapi_flags)
  show "inverted_init h FF_FLOAT = Some (Kfloat, Size 4)"
    using ne by (simp add: inverted_init_def Let_def ptr_layer string_layer decimal_step[OF assms])
  show "inverted_init h FF_DOUBLE = Some (Kfloat, Size 8)"
    using ne by (simp add: inverted_init_def Let_def ptr_layer string_layer decimal_step[OF assms])
qed


subsection \<open>dissolve after resolve\<close>

lemma current_tables:
  assumes "tm = typemap_class h \<or> newprc (typemap_class h) bits = Inr tm"
  shows "inverted tm = inverted_init h"
    and "map_of (integermap tm) (Size a) = map_of (integermap_init h) (Size a)"
    and "map_of (decimalmap tm) (Size a) = map_of decimalmap_init (Size a)"
    and "k \<noteq> KNone \<Longrightarrow> map_of (stringmap tm) (Type k) = map_of stringmap_init (Type k)"
  using assms
  by (auto simp: typemap_class_def newprc_def update_conv'
           split: option.splits sum.splits)

lemma roundtrip_int:
  assumes "set (decimalmap_order h) = {4, 8, 10, 12}"
    and "tm = typemap_class h \<or> newprc (typemap_class h) bits = Inr tm"
    and "Size \<bar>sz\<bar> \<in> fst ` set (integermap tm)"
  shows "roundtrip h tm (Scalar Kint sz) = Inr (Scalar Kint sz)"
proof -
  note c = current_tables[OF assms(2)]
  from assms(3) have "map_of (integermap tm) (Size \<bar>sz\<bar>) \<noteq> None"
    by (simp add: map_of_eq_None_iff)
  then obtain f x where m: "map_of (integermap_init h) (Size \<bar>sz\<bar>) = Some (f, x)"
    unfolding c(2) by auto
  then have i: "(Size \<bar>sz\<bar>, (f, x)) \<in> set (integermap_init h)"
    by (rule map_of_SomeD)
  from integermap_item[OF i]
  have f: "f \<in> {byteflag, wordflag, tribyteflag, dwrdflag, qwrdflag, tbytflag, owrdflag, ywrdflag}"
    and x: "x = -1" by simp_all
  note b = intflag_bits[OF f]
  have r: "resolve h tm (Scalar Kint sz)
           = Inr (f OR (if sz < 0 then FF_SIGN else 0), BADADDR h, \<bar>sz\<bar>)"
    using m x by (simp add: dict_get_def c(2) resolve_finish_def)
  have inv: "inverted tm (f AND FF_MASKSIZE) = Some (Kint, Size \<bar>sz\<bar>)"
    unfolding c(1) by (rule inverted_int[OF assms(1) i])
  have "dissolve h tm (f OR (if sz < 0 then FF_SIGN else 0)) (BADADDR h) \<bar>sz\<bar>
          = Inr (Scalar Kint sz)"
    using inv b by (cases "sz < 0") (simp_all add: dissolve_def)
  then show ?thesis unfolding roundtrip_def r by simp
qed

lemma floatflag_bits:
  "floatflag AND FF_SIGN \<noteq> FF_SIGN" "(floatflag OR FF_SIGN) AND FF_SIGN = FF_SIGN"
  "(floatflag OR FF_SIGN) AND FF_MASKSIZE = FF_FLOAT" "floatflag AND FF_MASKSIZE = FF_FLOAT"
  "doubleflag AND FF_SIGN \<noteq> FF_SIGN" "(doubleflag OR FF_SIGN) AND FF_SIGN = FF_SIGN"
  "(doubleflag OR FF_SIGN) AND FF_MASKSIZE = FF_DOUBLE" "doubleflag AND FF_MASKSIZE = FF_DOUBLE"
  "FF_FLOAT \<noteq> FF_STRU" "FF_DOUBLE \<noteq> FF_STRU"
  by (simp_all add: idaapi_flags)

lemma roundtrip_float:
  assumes "set (decimalmap_order h) = {4, 8, 10, 12}"
    and "tm = typemap_class h \<or> newprc (typemap_class h) bits = Inr tm"
    and "\<bar>sz\<bar> \<in> {4, 8}"
  shows "roundtrip h tm (Scalar Kfloat sz) = Inr (Scalar Kfloat sz)"
proof -
  note c = current_tables[OF assms(2)]
  note inv = inverted_float[OF assms(1)]
  from assms(3) consider "\<bar>sz\<bar> = 4" | "\<bar>sz\<bar> = 8" by auto
  then show ?thesis
  proof cases
    case 1
    then have r: "resolve h tm (Scalar Kfloat sz)
             = Inr (floatflag OR (if sz < 0 then FF_SIGN else 0), BADADDR h, 4)"
      by (simp add: dict_get_def c(3) resolve_finish_def decimalmap_init_def)
    from 1 have "dissolve h tm (floatflag OR (if sz < 0 then FF_SIGN else 0)) (BADADDR h) 4
                   = Inr (Scalar Kfloat sz)"
      by (cases "sz < 0") (simp_all add: dissolve_def c(1) inv floatflag_bits)
    then show ?thesis unfolding roundtrip_def r by simp
  next
    case 2
    then have r: "resolve h tm (Scalar Kfloat sz)
             = Inr (doubleflag OR (if sz < 0 then FF_SIGN else 0), BADADDR h, 8)"
      by (simp add: dict_get_def c(3) resolve_finish_def decimalmap_init_def)
    from 2 have "dissolve h tm (doubleflag OR (if sz < 0 then FF_SIGN else 0)) (BADADDR h) 8
                   = Inr (Scalar Kfloat sz)"
      by (cases "sz < 0") (simp_all add: dissolve_def c(1) inv floatflag_bits)
    then show ?thesis unfolding roundtrip_def r by simp
  qed
qed


lemma invert_into_last:
  "invert_into msk t items tbl dt
     = (case filter (\<lambda>(s, (f, x)). f AND msk = dt) items of
          [] \<Rightarrow> tbl dt
        | y # ys \<Rightarrow> Some (t, fst (last (y # ys))))"
proof (induction items arbitrary: tbl)
  case Nil
  then show ?case by (simp add: invert_into_def)
next
  case (Cons a items)
  obtain s f x where a: "a = (s, (f, x))" by (cases a)
  show ?case
    unfolding a invert_into_Cons Cons.IH
    by (cases "filter (\<lambda>(s, (f, x)). f AND msk = dt) items") auto
qed

lemma packreal_items_of:
  "set xs \<subseteq> {4, 8, 10, 12} \<Longrightarrow>
   filter (\<lambda>(s, (f, x)). f AND FF_MASKSIZE = FF_PACKREAL)
     (map (\<lambda>s. (Size s, the (map_of decimalmap_init (Size s)))) xs)
   = map (\<lambda>s. (Size s, (packrealflag, - 1))) (filter (\<lambda>s. s \<in> {10, 12}) xs)"
  by (induction xs) (auto simp: decimalmap_init_def idaapi_flags)

lemma packreal_items:
  assumes "set (decimalmap_order h) = {4, 8, 10, 12}"
  shows "filter (\<lambda>(s, (f, x)). f AND FF_MASKSIZE = FF_PACKREAL) (decimalmap_items h)
           = map (\<lambda>s. (Size s, (packrealflag, - 1)))
               (filter (\<lambda>s. s \<in> {10, 12}) (decimalmap_order h))"
  unfolding decimalmap_items_def using assms by (intro packreal_items_of) simp

lemma inverted_packreal:
  assumes "set (decimalmap_order h) = {4, 8, 10, 12}"
  shows "inverted_init h FF_PACKREAL
           = Some (Kfloat, Size (last (filter (\<lambda>s. s \<in> {10, 12}) (decimalmap_order h))))"
proof -
  let ?xs = "filter (\<lambda>s. s \<in> {10, 12}) (decimalmap_order h)"
  from assms have "10 \<in> set ?xs" by simp
  then have ne: "?xs \<noteq> []" by (metis empty_iff list.set(1))
  have b: "FF_PACKREAL \<noteq> FF_STRU" "FF_PACKREAL \<noteq> FF_ASCI"
    by (simp_all add: idaapi_flags)
  have "invert_into FF_MASKSIZE Kfloat (decimalmap_items h) tbl FF_PACKREAL
          = Some (Kfloat, Size (last ?xs))" for tbl
    unfolding invert_into_last packreal_items[OF assms]
    using ne by (cases ?xs) (simp_all add: last_map)
  with b show ?thesis
    by (simp add: inverted_init_def Let_def ptr_layer string_layer)
qed

lemma last_packreal:
  assumes "set (decimalmap_order h) = {4, 8, 10, 12}"
  shows "last (filter (\<lambda>s. s \<in> {10, 12}) (decimalmap_order h)) \<in> {10, 12}"
proof -
  let ?xs = "filter (\<lambda>s. s \<in> {10, 12}) (decimalmap_order h)"
  from assms have "10 \<in> set ?xs" by simp
  then have "?xs \<noteq> []" by (metis empty_iff list.set(1))
  then have "last ?xs \<in> set ?xs" by (rule last_in_set)
  then show ?thesis by simp
qed

lemma packrealflag_bits:
  "(packrealflag OR (if sz < 0 then FF_SIGN else 0)) AND FF_MASKSIZE = FF_PACKREAL"
  "FF_PACKREAL \<noteq> FF_STRU"
  "((packrealflag OR (if sz < 0 then FF_SIGN else 0)) AND FF_SIGN = FF_SIGN) = (sz < (0::int))"
  by (simp_all add: idaapi_flags)

lemma roundtrip_packreal:
  assumes "set (decimalmap_order h) = {4, 8, 10, 12}"
    and "tm = typemap_class h \<or> newprc (typemap_class h) bits = Inr tm"
    and "\<bar>sz\<bar> \<in> {10, 12}"
  shows "(roundtrip h tm (Scalar Kfloat sz) = Inr (Scalar Kfloat sz))
           = (last (filter (\<lambda>s. s \<in> {10, 12}) (decimalmap_order h)) = \<bar>sz\<bar>)"
proof -
  note c = current_tables[OF assms(2)]
  let ?l = "last (filter (\<lambda>s. s \<in> {10, 12}) (decimalmap_order h))"
  from assms(3) have r: "resolve h tm (Scalar Kfloat sz)
           = Inr (packrealflag OR (if sz < 0 then FF_SIGN else 0), BADADDR h, \<bar>sz\<bar>)"
    by (auto simp: dict_get_def c(3) resolve_finish_def decimalmap_init_def)
  from last_packreal[OF assms(1)] have l: "?l \<noteq> 0" by auto
  have d: "dissolve h tm (packrealflag OR (if sz < 0 then FF_SIGN else 0)) (BADADDR h) \<bar>sz\<bar>
        = (if ?l = \<bar>sz\<bar> then Inr (Scalar Kfloat (?l * (if sz < 0 then - 1 else 1)))
           else Inr (Array (Scalar Kfloat (?l * (if sz < 0 then - 1 else 1))) (\<bar>sz\<bar> div ?l)))"
    using l
    by (simp add: dissolve_def Let_def packrealflag_bits c(1) inverted_packreal[OF assms(1)]
          floordiv_def)
  show ?thesis
    unfolding roundtrip_def r using d by (auto simp: abs_if split: if_splits)
qed

lemma asciflag_bits:
  "(asciflag OR (if sz < 0 then FF_SIGN else 0)) AND FF_MASKSIZE = FF_ASCI"
  "FF_ASCI \<noteq> FF_STRU"
  by (simp_all add: idaapi_flags)

lemma inverted_string:
  "inverted_init h FF_ASCI = Some (Kstr, Type Kunicode)"
proof -
  have "FF_ASCI \<noteq> FF_STRU" by (simp add: idaapi_flags)
  moreover have "invert_into FF_MASKSIZE Kstr stringmap_init tbl FF_ASCI = Some (Kstr, Type Kunicode)"
    for tbl
    by (simp add: invert_into_def stringmap_init_def idaapi_flags)
  ultimately show ?thesis
    by (simp add: inverted_init_def Let_def ptr_layer)
qed

lemma roundtrip_string:
  assumes "tm = typemap_class h \<or> newprc (typemap_class h) bits = Inr tm"
    and "t \<in> {Kchr, Kstr, Kunicode}"
  shows "roundtrip h tm (Scalar t sz)
           = (case floordiv \<bar>sz\<bar> (get_data_elsize h FF_ASCI None) of
                Inl e \<Rightarrow> Inl e
              | Inr n \<Rightarrow> Inr (if n > 1 then Array (Bare Kstr) n else Bare Kstr))"
proof -
  note c = current_tables[OF assms(1)]
  have "\<exists>tid. resolve h tm (Scalar t sz)
               = Inr (asciflag OR (if sz < 0 then FF_SIGN else 0), tid, \<bar>sz\<bar>)"
    using assms(2) by (auto simp: dict_get_def c(4) stringmap_init_def resolve_finish_def Let_def)
  then obtain tid where
    r: "resolve h tm (Scalar t sz) = Inr (asciflag OR (if sz < 0 then FF_SIGN else 0), tid, \<bar>sz\<bar>)"
    ..
  show ?thesis
    unfolding roundtrip_def r
    by (simp add: dissolve_def asciflag_bits c(1) inverted_string Let_def)
qed


text \<open>
  C1, as the code has it. With the tables of the class body, or with the defaults of
  \<open>__newprc__\<close> added, and whatever the order in which the inverted table reads
  \<open>decimalmap\<close>: \<open>dissolve(*resolve(s))\<close> is \<open>s\<close> for every tuple of \<open>int\<close> and a size, of
  either sign, that \<open>integermap\<close> has, and for every tuple of \<open>float\<close> and the size 4 or
  8, of either sign. For a tuple of \<open>chr\<close>, \<open>str\<close> or \<open>unicode\<close> it is never the tuple: the
  size is divided by the host's element size, and the result is the bare type \<open>str\<close>
  when the quotient is at most 1, the list of \<open>str\<close> and the quotient when it is more,
  and a \<open>ZeroDivisionError\<close> when the element size is 0. For a tuple of \<open>float\<close> and the
  size 10 or 12, of either sign, it is the tuple exactly when that size is the one of
  the two that the iteration of \<open>decimalmap\<close> gives last.
\<close>

theorem scalar_roundtrip:
  assumes "set (decimalmap_order h) = {4, 8, 10, 12}"
    and "tm = typemap_class h \<or> newprc (typemap_class h) bits = Inr tm"
  shows "((t = Kint \<and> Size \<bar>sz\<bar> \<in> fst ` set (integermap tm)) \<or> (t = Kfloat \<and> \<bar>sz\<bar> \<in> {4, 8})
            \<longrightarrow> roundtrip h tm (Scalar t sz) = Inr (Scalar t sz))
       \<and> (t \<in> {Kchr, Kstr, Kunicode}
            \<longrightarrow> roundtrip h tm (Scalar t sz)
                  = (case floordiv \<bar>sz\<bar> (get_data_elsize h FF_ASCI None) of
                       Inl e \<Rightarrow> Inl e
                     | Inr n \<Rightarrow> Inr (if n > 1 then Array (Bare Kstr) n else Bare Kstr)))
       \<and> (\<bar>sz\<bar> \<in> {10, 12}
            \<longrightarrow> (roundtrip h tm (Scalar Kfloat sz) = Inr (Scalar Kfloat sz))
                  = (last (filter (\<lambda>s. s \<in> {10, 12}) (decimalmap_order h)) = \<bar>sz\<bar>))"
  using roundtrip_int[OF assms] roundtrip_float[OF assms] roundtrip_string[OF assms(2)]
    roundtrip_packreal[OF assms]
  by blast

theorem scalar_roundtrip_witness:
  "roundtrip host7 (typemap_class host7) (Scalar Kint (- 4)) = Inr (Scalar Kint (- 4))
   \<and> roundtrip host7 (typemap_class host7) (Scalar Kstr 5) = Inr (Array (Bare Kstr) 5)
   \<and> roundtrip host7 (typemap_class host7) (Scalar Kfloat 12) = Inr (Scalar Kfloat 12)
   \<and> roundtrip host7 (typemap_class host7) (Scalar Kfloat 10) \<noteq> Inr (Scalar Kfloat 10)
   \<and> (\<exists>tm. newprc (typemap_class host7) (Some 64) = Inr tm
         \<and> roundtrip host7 tm (Scalar Kfloat 8) = Inr (Scalar Kfloat 8))"
proof -
  have o: "set (decimalmap_order host7) = {4, 8, 10, 12}" by (simp add: host7_def)
  have c: "typemap_class host7 = typemap_class host7 \<or>
           newprc (typemap_class host7) None = Inr (typemap_class host7)" by simp
  have i: "Size 4 \<in> fst ` set (integermap (typemap_class host7))"
    by (simp add: typemap_class_def integermap_init_def host7_def Let_def)
  have l: "last (filter (\<lambda>s. s \<in> {10, 12}) (decimalmap_order host7)) = 12"
    by (simp add: host7_def)
  have g: "floordiv 5 (get_data_elsize host7 FF_ASCI None) = Inr 5"
    by (simp add: floordiv_def host7_def)
  have "\<exists>tm. newprc (typemap_class host7) (Some 64) = Inr tm"
    by (simp add: newprc_def typemap_class_def integermap_init_def decimalmap_init_def
          stringmap_init_def ptrmap_init_def host7_def dict_get_def Let_def)
  then obtain tm where n: "newprc (typemap_class host7) (Some 64) = Inr tm" ..
  then have c': "tm = typemap_class host7 \<or> newprc (typemap_class host7) (Some 64) = Inr tm"
    by simp
  from scalar_roundtrip[OF o c, where t = Kint and sz = "- 4"] i
  have 1: "roundtrip host7 (typemap_class host7) (Scalar Kint (- 4)) = Inr (Scalar Kint (- 4))"
    by simp
  from scalar_roundtrip[OF o c, where t = Kstr and sz = 5] g
  have 2: "roundtrip host7 (typemap_class host7) (Scalar Kstr 5) = Inr (Array (Bare Kstr) 5)"
    by simp
  from scalar_roundtrip[OF o c, where sz = 12] l
  have 3: "roundtrip host7 (typemap_class host7) (Scalar Kfloat 12) = Inr (Scalar Kfloat 12)"
    by simp
  from scalar_roundtrip[OF o c, where sz = 10] l
  have 4: "roundtrip host7 (typemap_class host7) (Scalar Kfloat 10) \<noteq> Inr (Scalar Kfloat 10)"
    by simp
  from scalar_roundtrip[OF o c', where t = Kfloat and sz = 8]
  have 5: "roundtrip host7 tm (Scalar Kfloat 8) = Inr (Scalar Kfloat 8)"
    by simp
  from 1 2 3 4 5 n show ?thesis by blast
qed

text \<open>
  C1, as the claim states it, fails. \<open>stringmap\<close> has \<open>chr\<close>, and \<open>(chr, 3)\<close> resolves;
  \<open>dissolve\<close> takes a string type for one whose size is counted in elements and returns
  the list \<open>[str, 3]\<close>, not the tuple.
\<close>

theorem string_scalar_counterexample:
  "resolve host7 (typemap_class host7) (Scalar Kchr 3) = Inr (asciflag, 0, 3)
   \<and> roundtrip host7 (typemap_class host7) (Scalar Kchr 3) = Inr (Array (Bare Kstr) 3)"
  by (simp add: roundtrip_def typemap_class_def dict_get_def stringmap_init_def resolve_finish_def
     dissolve_def inverted_init_def invert_into_def host7_def integermap_init_def
     decimalmap_items_def decimalmap_init_def ptrmap_init_def floordiv_def idaapi_flags)

subsection \<open>Other scalars\<close>

text \<open>
  On the example host a pointer and a \<open>long\<close> come back as an \<open>int\<close>, and an alignment
  raises \<open>KeyError\<close>.
\<close>

lemma other_scalars_on_host7:
  "roundtrip host7 (typemap_class host7) (Scalar Ktype 4) = Inr (Scalar Kint 4)"
  "roundtrip host7 (typemap_class host7) (Scalar Klong 4) = Inr (Scalar Kint 4)"
  "roundtrip host7 (typemap_class host7) (Scalar KNone 16) = Inl KeyError"
  by (simp_all add: roundtrip_def typemap_class_def dict_get_def stringmap_init_def
     resolve_finish_def nonemap_init_def
     dissolve_def inverted_init_def invert_into_def host7_def integermap_init_def
     decimalmap_items_def decimalmap_init_def ptrmap_init_def floordiv_def idaapi_flags)

subsection \<open>dissolve on a structure\<close>

text \<open>
  C3, as the code has it. For a flag of type \<open>FF_STRU\<close> and an identifier that
  \<open>structure.by_identifier\<close> finds: when the structure's size divides the size with a
  quotient above 1 the result is the array of that many structures, and with the
  quotient 1 it is the structure itself. The code compares the two sizes and divides,
  rounding down, without testing divisibility: whenever the sizes differ and the
  structure's is not 0, the result is the array of \<open>size // structure size\<close> structures.
\<close>

theorem dissolve_structure:
  assumes "flag AND FF_MASKSIZE = FF_STRU" "by_identifier h typeid = Inr t"
  shows "(struc_size t dvd sz \<and> sz div struc_size t > 1
            \<longrightarrow> dissolve h tm flag typeid sz = Inr (Array (Struct t) (sz div struc_size t)))
       \<and> (struc_size t dvd sz \<and> sz div struc_size t = 1
            \<longrightarrow> dissolve h tm flag typeid sz = Inr (Struct t))
       \<and> (struc_size t \<noteq> sz \<and> struc_size t \<noteq> 0
            \<longrightarrow> dissolve h tm flag typeid sz = Inr (Array (Struct t) (sz div struc_size t)))"
proof (intro conjI impI)
  assume a: "struc_size t dvd sz \<and> sz div struc_size t > 1"
  then have "struc_size t \<noteq> 0" "struc_size t \<noteq> sz"
    by (cases "struc_size t = 0"; auto)+
  with assms show "dissolve h tm flag typeid sz = Inr (Array (Struct t) (sz div struc_size t))"
    by (simp add: dissolve_def floordiv_def)
next
  assume a: "struc_size t dvd sz \<and> sz div struc_size t = 1"
  then have "struc_size t = sz" by (metis dvd_mult_div_cancel mult.right_neutral)
  with assms show "dissolve h tm flag typeid sz = Inr (Struct t)"
    by (simp add: dissolve_def)
next
  assume "struc_size t \<noteq> sz \<and> struc_size t \<noteq> 0"
  with assms show "dissolve h tm flag typeid sz = Inr (Array (Struct t) (sz div struc_size t))"
    by (simp add: dissolve_def floordiv_def)
qed

theorem dissolve_structure_witness:
  "dissolve host_struc (typemap_class host_struc) struflag 7 8
     = Inr (Array (Struct \<lparr>struc_id = 7, struc_size = 4\<rparr>) 2)
   \<and> dissolve host_struc (typemap_class host_struc) struflag 7 4
     = Inr (Struct \<lparr>struc_id = 7, struc_size = 4\<rparr>)
   \<and> dissolve host_struc (typemap_class host_struc) struflag 7 10
     = Inr (Array (Struct \<lparr>struc_id = 7, struc_size = 4\<rparr>) 2)"
proof -
  have f: "struflag AND FF_MASKSIZE = FF_STRU" by (simp add: idaapi_flags)
  have b: "by_identifier host_struc 7 = Inr \<lparr>struc_id = 7, struc_size = 4\<rparr>"
    by (simp add: host_struc_def host7_def)
  from dissolve_structure[OF f b, where sz = 8 and tm = "typemap_class host_struc"]
       dissolve_structure[OF f b, where sz = 4 and tm = "typemap_class host_struc"]
       dissolve_structure[OF f b, where sz = 10 and tm = "typemap_class host_struc"]
  show ?thesis by simp
qed

text \<open>
  C3, as the claim states it, fails in its last part: an array is returned where the
  quotient is not above 1. A structure of 4 bytes divides the size 0 exactly, with the
  quotient 0, and the result is an array of 0 structures; it does not divide the size
  10, and the result is an array of 2.
\<close>

theorem dissolve_structure_array_counterexample:
  "dissolve host_struc (typemap_class host_struc) struflag 7 0
     = Inr (Array (Struct \<lparr>struc_id = 7, struc_size = 4\<rparr>) 0)
   \<and> (4::int) dvd 0 \<and> \<not> (0::int) div 4 > 1
   \<and> dissolve host_struc (typemap_class host_struc) struflag 7 10
     = Inr (Array (Struct \<lparr>struc_id = 7, struc_size = 4\<rparr>) 2)
   \<and> \<not> (4::int) dvd 10"
  by (simp add: dissolve_def host_struc_def host7_def floordiv_def idaapi_flags)

section \<open>Properties of register_t and architecture_t\<close>

subsection \<open>Every parent is created before its children\<close>

lemma parents_first_new:
  "parents_first (objects self) \<Longrightarrow> parents_first (objects (snd (new self nm bits idaname dt)))"
  by (auto simp: parents_first_def new_def Let_def nth_append less_Suc_eq split: option.splits)

lemma parents_first_child:
  "parents_first (objects self) \<Longrightarrow> par < length (objects self) \<Longrightarrow>
   parents_first (objects (snd (child self par nm pos bits idaname dt)))"
  by (auto simp: parents_first_def child_def Let_def nth_append nth_list_update less_Suc_eq
           split: option.splits)

subsection \<open>promote\<close>

lemma promote_None:
  "promote regs reg None
     = Some (case parent (regs ! reg) of None \<Rightarrow> Inl LookupError | Some p \<Rightarrow> Inr p)"
  by (subst promote.simps) (simp split: option.splits)

lemma promote_Some:
  assumes "parents_first regs"
  shows "reg < length regs \<Longrightarrow>
         promote regs reg (Some t)
           = Some (case find (\<lambda>a. size' (regs ! a) = t) (reg # ancestors regs reg) of
                     None \<Rightarrow> Inl LookupError | Some a \<Rightarrow> Inr a)"
proof (induction reg rule: less_induct)
  case (less reg)
  show ?case
  proof (cases "size' (regs ! reg) = t")
    case True
    then show ?thesis by (subst promote.simps) simp
  next
    case False
    show ?thesis
    proof (cases "parent (regs ! reg)")
      case None
      have anc: "ancestors regs reg = []"
        using None by (subst ancestors.simps) simp
      have "promote regs reg (Some t) = Some (Inl LookupError)"
        using False None by (subst promote.simps) simp
      with anc False show ?thesis by simp
    next
      case (Some p)
      from assms less.prems Some have lt: "p < reg"
        by (auto simp: parents_first_def split: option.splits)
      with less.prems have "p < length regs" by simp
      note ih = less.IH[OF lt this]
      have anc: "ancestors regs reg = p # ancestors regs p"
        using Some lt by (subst ancestors.simps) simp
      have "promote regs reg (Some t) = promote regs p (Some t)"
        using False Some by (subst promote.simps) simp
      with ih anc False show ?thesis by simp
    qed
  qed
qed

text \<open>
  C4, as the code has it. In an architecture whose registers were created parents
  first, \<open>promote\<close> returns on every register. Without a size it gives the immediate
  parent, and a \<open>LookupError\<close> on a root. With a size \<open>t\<close> it gives the first register
  of size \<open>t\<close> among the register itself and then its ancestors, nearest first, and a
  \<open>LookupError\<close> when none of them has that size.
\<close>

theorem promote_first_of_chain:
  assumes "parents_first regs" "reg < length regs"
  shows "promote regs reg None
           = Some (case parent (regs ! reg) of None \<Rightarrow> Inl LookupError | Some p \<Rightarrow> Inr p)
       \<and> promote regs reg (Some t)
           = Some (case find (\<lambda>a. size' (regs ! a) = t) (reg # ancestors regs reg) of
                     None \<Rightarrow> Inl LookupError | Some a \<Rightarrow> Inr a)"
  using promote_None promote_Some[OF assms] by simp

theorem promote_first_of_chain_witness:
  "promote example_regs 1 None = Some (Inr 0)
   \<and> promote example_regs 1 (Some 64) = Some (Inr 0)
   \<and> promote example_regs 1 (Some 16) = Some (Inl LookupError)"
proof -
  have pf: "parents_first example_regs"
    by (simp add: parents_first_def example_regs_def less_Suc_eq numeral_3_eq_3)
  have len: "1 < length example_regs" by (simp add: example_regs_def)
  have anc: "ancestors example_regs 1 = [0]"
    by (simp add: ancestors.simps example_regs_def)
  from promote_first_of_chain[OF pf len, of 64] promote_first_of_chain[OF pf len, of 16] anc
  show ?thesis by (simp add: example_regs_def)
qed

text \<open>
  C4, as the claim states it, fails: \<open>promote\<close> does return the register itself.
  Promoting the 32-bit register of the example to the size 32 gives that register, not
  an ancestor and not a \<open>LookupError\<close>.
\<close>

theorem promote_returns_register_itself:
  "promote example_regs 1 (Some 32) = Some (Inr 1)"
  by (simp add: promote.simps example_regs_def)

subsection \<open>Equality of registers\<close>

lemma letters_unfold:
  "letters = [(CHR ''A'', CHR ''a''), (CHR ''B'', CHR ''b''), (CHR ''C'', CHR ''c''),
     (CHR ''D'', CHR ''d''), (CHR ''E'', CHR ''e''), (CHR ''F'', CHR ''f''),
     (CHR ''G'', CHR ''g''), (CHR ''H'', CHR ''h''), (CHR ''I'', CHR ''i''),
     (CHR ''J'', CHR ''j''), (CHR ''K'', CHR ''k''), (CHR ''L'', CHR ''l''),
     (CHR ''M'', CHR ''m''), (CHR ''N'', CHR ''n''), (CHR ''O'', CHR ''o''),
     (CHR ''P'', CHR ''p''), (CHR ''Q'', CHR ''q''), (CHR ''R'', CHR ''r''),
     (CHR ''S'', CHR ''s''), (CHR ''T'', CHR ''t''), (CHR ''U'', CHR ''u''),
     (CHR ''V'', CHR ''v''), (CHR ''W'', CHR ''w''), (CHR ''X'', CHR ''x''),
     (CHR ''Y'', CHR ''y''), (CHR ''Z'', CHR ''z'')]"
  by (simp add: letters_def)

lemma of_char_lower:
  "(of_char (lower_char c) :: nat) = (if is_upper c then of_char c + 32 else of_char c)"
  by (simp add: lower_char_def is_upper_def)

lemma letters_codes:
  "(u, l) \<in> set letters \<Longrightarrow>
   65 \<le> (of_char u :: nat) \<and> (of_char u :: nat) \<le> 90 \<and> (of_char l :: nat) = of_char u + 32"
  unfolding letters_unfold by auto

lemma letters_lower:
  assumes "(u, l) \<in> set letters"
  shows "is_upper u \<and> lower_char u = l \<and> \<not> is_upper l"
proof -
  note c = letters_codes[OF assms]
  from c have u: "is_upper u" by (simp add: is_upper_def)
  with c have "(of_char (lower_char u) :: nat) = of_char l" by (simp add: of_char_lower)
  then have "lower_char u = l" by (rule of_char_eqI)
  moreover from c have "\<not> is_upper l" by (simp add: is_upper_def)
  ultimately show ?thesis using u by simp
qed

lemma upper_in_letters:
  assumes "is_upper c"
  shows "(c, lower_char c) \<in> set letters"
proof -
  from assms have "65 \<le> (of_char c :: nat) \<and> (of_char c :: nat) \<le> 90"
    by (simp add: is_upper_def)
  then have "(of_char c :: nat) \<in> {65, 66, 67, 68, 69, 70, 71, 72, 73, 74, 75, 76, 77, 78, 79,
      80, 81, 82, 83, 84, 85, 86, 87, 88, 89, 90}"
    by simp arith
  then have "(of_char c :: nat) \<in> of_char ` set ''ABCDEFGHIJKLMNOPQRSTUVWXYZ''"
    by simp
  then obtain d where "d \<in> set ''ABCDEFGHIJKLMNOPQRSTUVWXYZ''" "(of_char c :: nat) = of_char d"
    by blast
  then have "c \<in> set ''ABCDEFGHIJKLMNOPQRSTUVWXYZ''"
    by (simp only: of_char_eq_iff)
  then have "c \<in> fst ` set letters"
    unfolding letters_unfold by simp
  then obtain l where ul: "(c, l) \<in> set letters"
    by auto
  with letters_lower[OF ul] show ?thesis by simp
qed

lemma lower_char_eq_iff: "lower_char a = lower_char b \<longleftrightarrow> same_letter a b"
proof
  assume e: "lower_char a = lower_char b"
  show "same_letter a b"
  proof (cases "is_upper a")
    case ua: True
    show ?thesis
    proof (cases "is_upper b")
      case True
      from e have "(of_char (lower_char a) :: nat) = of_char (lower_char b)" by simp
      with ua True have "(of_char a :: nat) = of_char b" by (simp add: of_char_lower)
      then have "a = b" by (rule of_char_eqI)
      then show ?thesis by (simp add: same_letter_def)
    next
      case False
      then have "lower_char b = b" by (simp add: lower_char_def)
      with e upper_in_letters[OF ua] show ?thesis by (simp add: same_letter_def)
    qed
  next
    case na: False
    then have la: "lower_char a = a" by (simp add: lower_char_def)
    show ?thesis
    proof (cases "is_upper b")
      case True
      from e la upper_in_letters[OF True] show ?thesis by (simp add: same_letter_def)
    next
      case False
      then have "lower_char b = b" by (simp add: lower_char_def)
      with e la show ?thesis by (simp add: same_letter_def)
    qed
  qed
next
  assume "same_letter a b"
  then consider "a = b" | "(a, b) \<in> set letters" | "(b, a) \<in> set letters"
    by (auto simp: same_letter_def)
  then show "lower_char a = lower_char b"
  proof cases
    case 1
    then show ?thesis by simp
  next
    case 2
    from letters_lower[OF 2] have "lower_char a = b" "\<not> is_upper b" by simp_all
    moreover from this(2) have "lower_char b = b" by (simp add: lower_char_def)
    ultimately show ?thesis by simp
  next
    case 3
    from letters_lower[OF 3] have "lower_char b = a" "\<not> is_upper a" by simp_all
    moreover from this(2) have "lower_char a = a" by (simp add: lower_char_def)
    ultimately show ?thesis by simp
  qed
qed

lemma lower_eq_iff: "lower s = lower t \<longleftrightarrow> equal_ignoring_case s t"
  unfolding lower_def equal_ignoring_case_def
proof (induction s arbitrary: t)
  case Nil
  then show ?case by auto
next
  case (Cons a s)
  then show ?case by (cases t) (auto simp: lower_char_eq_iff)
qed

text \<open>
  C10. A register equals a string exactly when its name and the string are equal
  ignoring letter case: so \<open>rax\<close> equals \<open>RAX\<close> and \<open>rAx\<close> and does not equal \<open>rbx\<close>. It
  equals a register exactly when the two are the same object. Equality is not
  structural: two registers that two calls of \<open>new\<close> with the same arguments create have
  the same fields and are not equal, and each equals itself; the same holds of the
  first and the third register of the example.
\<close>

theorem register_eq_name_or_identity:
  "register_eq regs R (PyStr s) = equal_ignoring_case (name' (regs ! R)) s
   \<and> register_eq regs R1 (PyReg R2) = (R1 = R2)
   \<and> register_eq example_regs 0 (PyStr ''RAX'') \<and> register_eq example_regs 0 (PyStr ''rAx'')
   \<and> \<not> register_eq example_regs 0 (PyStr ''rbx'')
   \<and> example_regs ! 0 = example_regs ! 2 \<and> \<not> register_eq example_regs 0 (PyReg 2)
   \<and> (case new self nm bits idaname dt of
        (r1, a1) \<Rightarrow>
          (case new a1 nm bits idaname dt of
             (r2, a2) \<Rightarrow>
               objects a2 ! r1 = objects a2 ! r2
               \<and> \<not> register_eq (objects a2) r1 (PyReg r2)
               \<and> register_eq (objects a2) r1 (PyReg r1)))"
proof -
  have 1: "register_eq regs R (PyStr s) = equal_ignoring_case (name' (regs ! R)) s"
    by (simp add: register_eq_def lower_eq_iff)
  have 2: "register_eq regs R1 (PyReg R2) = (R1 = R2)"
    by (simp add: register_eq_def)
  have 3: "equal_ignoring_case ''rax'' ''RAX''" "equal_ignoring_case ''rax'' ''rAx''"
    "\<not> equal_ignoring_case ''rax'' ''rbx''"
    by (simp_all add: equal_ignoring_case_def same_letter_def letters_unfold)
  have 4: "name' (example_regs ! 0) = ''rax''" by (simp add: example_regs_def)
  have 5: "example_regs ! 0 = example_regs ! 2" by (simp add: example_regs_def)
  have 6: "register_eq example_regs 0 (PyStr ''RAX'')" "register_eq example_regs 0 (PyStr ''rAx'')"
    "\<not> register_eq example_regs 0 (PyStr ''rbx'')"
    using 3 4 by (simp_all add: register_eq_def lower_eq_iff)
  have 7: "\<not> register_eq example_regs 0 (PyReg 2)" by (simp add: register_eq_def)
  have 8: "(case new self nm bits idaname dt of
        (r1, a1) \<Rightarrow>
          (case new a1 nm bits idaname dt of
             (r2, a2) \<Rightarrow>
               objects a2 ! r1 = objects a2 ! r2
               \<and> \<not> register_eq (objects a2) r1 (PyReg r2)
               \<and> register_eq (objects a2) r1 (PyReg r1)))"
    by (simp add: new_def Let_def register_eq_def nth_append)
  from 1 2 5 6 7 8 show ?thesis by blast
qed

section \<open>Properties of ref_t\<close>

lemmas xref_codes =
  fl_CF_def fl_CN_def fl_JF_def fl_JN_def fl_F_def dr_O_def dr_I_def dr_R_def dr_W_def

lemma distinct_mapper: "distinct (map fst (mapper v7))"
  by (cases v7) (simp_all add: mapper_def xref_codes)

lemma of_state_loop_unique:
  "(code, t) \<in> set its \<Longrightarrow> \<forall>(c', t') \<in> set its. set t' = set t \<longrightarrow> c' = code \<Longrightarrow>
   of_state_loop its (set t) = Inr \<lparr>F = code, chars = set t\<rparr>"
proof (induction its)
  case Nil
  then show ?case by simp
next
  case (Cons a its)
  obtain c' t' where a: "a = (c', t')" by (cases a)
  show ?case
  proof (cases "set t' = set t")
    case True
    with Cons.prems(2) a have "c' = code" by simp
    with True a show ?thesis by simp
  next
    case False
    with Cons.prems a have "(code, t) \<in> set its" by auto
    with Cons.IH Cons.prems(2) False a show ?thesis by simp
  qed
qed

lemma of_state_loop_none:
  "\<forall>(c, t) \<in> set its. set t \<noteq> res \<Longrightarrow> of_state_loop its res = Inl LookupError"
proof (induction its)
  case Nil
  then show ?case by simp
next
  case (Cons a its)
  obtain c t where a: "a = (c, t)" by (cases a)
  with Cons.prems have "set t \<noteq> res" by simp
  with Cons a show ?case by simp
qed

text \<open>
  C5. Whatever the order in which the mapping table is iterated: for a code of the
  table whose set no other code of the table has, \<open>of_state\<close> on the \<open>ref_t\<close> that \<open>of\<close>
  makes from the code returns a \<open>ref_t\<close> of that code; and \<open>of_state\<close> raises
  \<open>LookupError\<close> on a state whose set no entry of the table has.
\<close>

theorem of_state_inverts_of:
  assumes "set iteritems = set (mapper v7)"
  shows "((code, t) \<in> set (mapper v7)
            \<and> (\<forall>(c', t') \<in> set (mapper v7). set t' = set t \<longrightarrow> c' = code)
          \<longrightarrow> (\<exists>r. of_state iteritems (StateRef (ref_of v7 code)) = Inr r \<and> F r = code))
       \<and> ((\<forall>(c, t) \<in> set (mapper v7). set t \<noteq> state_set state)
          \<longrightarrow> of_state iteritems state = Inl LookupError)"
proof (intro conjI impI)
  assume a: "(code, t) \<in> set (mapper v7)
             \<and> (\<forall>(c', t') \<in> set (mapper v7). set t' = set t \<longrightarrow> c' = code)"
  then have "map_of (mapper v7) code = Some t"
    using distinct_mapper by simp
  then have r: "ref_of v7 code = \<lparr>F = code, chars = set t\<rparr>"
    by (simp add: ref_of_def)
  from a assms have "of_state_loop iteritems (set t) = Inr \<lparr>F = code, chars = set t\<rparr>"
    by (intro of_state_loop_unique) auto
  with r show "\<exists>r. of_state iteritems (StateRef (ref_of v7 code)) = Inr r \<and> F r = code"
    by (simp add: of_state_def state_set_def)
next
  assume n: "\<forall>(c, t) \<in> set (mapper v7). set t \<noteq> state_set state"
  have star: "(31, ''*'') \<in> set (mapper v7)"
    by (cases v7) (simp_all add: mapper_def xref_codes)
  with n have "state \<noteq> StateStr ''*''"
    by (auto simp: state_set_def)
  moreover from n assms have "of_state_loop iteritems (state_set state) = Inl LookupError"
    by (intro of_state_loop_none) auto
  ultimately show "of_state iteritems state = Inl LookupError"
    by (simp add: of_state_def)
qed

theorem of_state_inverts_of_witness:
  "(\<exists>r. of_state (rev (mapper True)) (StateRef (ref_of True 3)) = Inr r \<and> F r = 3)
   \<and> of_state (rev (mapper True)) (StateStr ''rw'') = Inl LookupError"
proof -
  have s: "set (rev (mapper True)) = set (mapper True)" by simp
  have m: "mapper True = [(16, ''rx''), (17, ''rx''), (18, ''rx''), (19, ''rx''), (21, ''rx''),
              (1, ''&r''), (5, ''&r''), (3, ''r''), (2, ''w''), (31, ''*'')]"
    by (simp add: mapper_def xref_codes)
  have 1: "(3, ''r'') \<in> set (mapper True)" by (simp add: m)
  have 2: "\<forall>(c', t') \<in> set (mapper True). set t' = set ''r'' \<longrightarrow> c' = 3"
    by (auto simp: m)
  have 3: "\<forall>(c, t) \<in> set (mapper True). set t \<noteq> state_set (StateStr ''rw'')"
    by (auto simp: m state_set_def)
  from of_state_inverts_of[OF s, of 3 "''r''" "StateStr ''rw''"] 1 2 3
  show ?thesis by blast
qed

section \<open>Properties of switch_t\<close>

lemma getitem_nonneg: "0 \<le> i \<Longrightarrow> i < int (length xs) \<Longrightarrow> getitem xs i = Inr (xs ! nat i)"
  by (simp add: getitem_def)

lemma getitem_in_range:
  "- int (length xs) \<le> i \<Longrightarrow> i < int (length xs) \<Longrightarrow> \<exists>v. getitem xs i = Inr v"
  by (simp add: getitem_def Let_def)

lemma switch_case_in_range:
  assumes "\<forall>ea n. length (array ea n) = nat n"
    and "indirectQ object \<longrightarrow>
           (\<forall>i \<in> set (index' array object). - jcases object \<le> i \<and> i < jcases object)"
    and "base object \<le> c" "c < count' object + base object"
  shows "\<exists>ea. switch_case array object c = Inr ea"
proof (cases "indirectQ object")
  case False
  with assms(1,3,4) have "getitem (branch array object) (c - base object)
        = Inr (branch array object ! nat (c - base object))"
    by (intro getitem_nonneg) (auto simp: branch_def count'_def)
  with False assms(3,4) show ?thesis by (simp add: switch_case_def)
next
  case True
  let ?idx = "c - base object"
  from True assms(1,3,4) have r: "0 \<le> ?idx" "?idx < int (length (index' array object))"
    by (auto simp: index'_def count'_def)
  then have g: "getitem (index' array object) ?idx = Inr (index' array object ! nat ?idx)"
    by (intro getitem_nonneg)
  from r have "index' array object ! nat ?idx \<in> set (index' array object)"
    by (intro nth_mem) auto
  with True assms(2) have b: "- jcases object \<le> index' array object ! nat ?idx"
     "index' array object ! nat ?idx < jcases object" by auto
  from True assms(1) have "length (branch array object) = nat (jcases object)"
    by (simp add: branch_def)
  with b have "\<exists>v. getitem (branch array object) (index' array object ! nat ?idx) = Inr v"
    by (intro getitem_in_range) auto
  with True g assms(3,4) show ?thesis by (auto simp: switch_case_def)
qed

text \<open>
  C9. For a switch of at least one case, in a database whose arrays have the length
  asked for and, if the switch is indirect, whose index table holds positions of the
  branch table: \<open>case\<close> raises \<open>ValueError\<close> for \<open>base - 1\<close> and for \<open>base + count\<close>, and
  returns an address for \<open>base\<close> and for \<open>base + count - 1\<close>.
\<close>

theorem switch_case_bounds:
  assumes "count' object \<ge> 1"
    and "\<forall>ea n. length (array ea n) = nat n"
    and "indirectQ object \<longrightarrow>
           (\<forall>i \<in> set (index' array object). - jcases object \<le> i \<and> i < jcases object)"
  shows "switch_case array object (base object - 1) = Inl ValueError
       \<and> switch_case array object (base object + count' object) = Inl ValueError
       \<and> (\<exists>ea. switch_case array object (base object) = Inr ea)
       \<and> (\<exists>ea. switch_case array object (base object + count' object - 1) = Inr ea)"
proof -
  have 1: "switch_case array object (base object - 1) = Inl ValueError"
    by (simp add: switch_case_def)
  have 2: "switch_case array object (base object + count' object) = Inl ValueError"
    by (simp add: switch_case_def)
  have 3: "\<exists>ea. switch_case array object (base object) = Inr ea"
    using assms by (intro switch_case_in_range) auto
  have 4: "\<exists>ea. switch_case array object (base object + count' object - 1) = Inr ea"
    using assms by (intro switch_case_in_range) auto
  from 1 2 3 4 show ?thesis by simp
qed

theorem switch_case_bounds_witness:
  "switch_case example_array example_switch 4 = Inl ValueError
   \<and> switch_case example_array example_switch 8 = Inl ValueError
   \<and> (\<exists>ea. switch_case example_array example_switch 5 = Inr ea)
   \<and> (\<exists>ea. switch_case example_array example_switch 7 = Inr ea)"
proof -
  have 1: "count' example_switch \<ge> 1" by (simp add: count'_def example_switch_def)
  have 2: "\<forall>ea n. length (example_array ea n) = nat n" by (simp add: example_array_def)
  have 3: "indirectQ example_switch \<longrightarrow>
           (\<forall>i \<in> set (index' example_array example_switch).
              - jcases example_switch \<le> i \<and> i < jcases example_switch)"
    by (simp add: index'_def example_array_def example_switch_def indirectQ_def)
  have b: "base example_switch = 5" "count' example_switch = 3"
    by (simp_all add: base_def count'_def example_switch_def)
  from switch_case_bounds[OF 1 2 3] b show ?thesis by simp
qed

end
